theory Spec2Isabelle
  imports Main
begin

section \<open>Strings as the Python code uses them\<close>

text \<open>
  Python \<open>str\<close> values are modelled as \<^typ>\<open>string\<close>. Whitespace, digits and case
  folding are those of the ASCII range: \<open>str.strip\<close> and the class \<open>\s\<close> remove the
  characters for which \<open>str.isspace\<close> holds, \<open>str.lower\<close> and \<open>re.IGNORECASE\<close> fold
  \<open>A\<close>..\<open>Z\<close>, and \<open>\d\<close> is \<open>0\<close>..\<open>9\<close>.
\<close>

definition is_space :: "char \<Rightarrow> bool" where
  "is_space c = (c \<in> set [CHR '' '', CHR 0x09, CHR 0x0A, CHR 0x0B, CHR 0x0C, CHR 0x0D,
                            CHR 0x1C, CHR 0x1D, CHR 0x1E, CHR 0x1F])"

definition is_digit :: "char \<Rightarrow> bool" where
  "is_digit c = (c \<in> set ''0123456789'')"

definition digit_val :: "char \<Rightarrow> nat" where
  "digit_val c = (case map_of (zip ''0123456789'' [0, 1, 2, 3, 4, 5, 6, 7, 8, 9]) c of
                    Some v \<Rightarrow> v | None \<Rightarrow> 0)"

definition lower_char :: "char \<Rightarrow> char" where
  "lower_char c =
     (case map_of (zip ''ABCDEFGHIJKLMNOPQRSTUVWXYZ'' ''abcdefghijklmnopqrstuvwxyz'') c of
        Some d \<Rightarrow> d | None \<Rightarrow> c)"

definition lower :: "string \<Rightarrow> string" where
  "lower s = map lower_char s"

definition strip :: "string \<Rightarrow> string" where
  "strip s = rev (dropWhile is_space (rev (dropWhile is_space s)))"

definition startswith :: "string \<Rightarrow> string \<Rightarrow> bool" where
  "startswith s p = (take (length p) s = p)"

text \<open>\<open>s.split(d)\<close> for a one-character separator: never the empty list.\<close>

fun split_on :: "char \<Rightarrow> string \<Rightarrow> string list" where
  "split_on d [] = [[]]"
| "split_on d (c # cs) =
     (if c = d then [] # split_on d cs
      else (case split_on d cs of [] \<Rightarrow> [[c]] | w # ws \<Rightarrow> (c # w) # ws))"

text \<open>\<open>xs[0]\<close>: \<open>None\<close> stands for the \<open>IndexError\<close>.\<close>

definition first_item :: "'a list \<Rightarrow> 'a option" where
  "first_item xs = (case xs of [] \<Rightarrow> None | x # _ \<Rightarrow> Some x)"

text \<open>
  \<open>int(s)\<close> on a string: surrounding whitespace is dropped, one sign is allowed, the
  digits may be grouped by single underscores. \<open>None\<close> stands for the \<open>ValueError\<close>.
\<close>

fun int_digits :: "string \<Rightarrow> nat \<Rightarrow> bool \<Rightarrow> nat option" where
  "int_digits [] acc prev = (if prev then Some acc else None)"
| "int_digits (c # cs) acc prev =
     (if is_digit c then int_digits cs (acc * 10 + digit_val c) True
      else if c = CHR ''_'' \<and> prev then int_digits cs acc False
      else None)"

definition py_int :: "string \<Rightarrow> int option" where
  "py_int x =
     (case strip x of
        [] \<Rightarrow> None
      | c # cs \<Rightarrow>
          if c = CHR ''-'' then map_option (\<lambda>n. - int n) (int_digits cs 0 False)
          else if c = CHR ''+'' then map_option int (int_digits cs 0 False)
          else map_option int (int_digits (c # cs) 0 False))"

fun join :: "string \<Rightarrow> string list \<Rightarrow> string" where
  "join sep [] = []"
| "join sep [x] = x"
| "join sep (x # y # ys) = x @ sep @ join sep (y # ys)"


section \<open>Month tokens (\<open>_month_index_from_string\<close>)\<close>

definition months :: "string list" where
  "months = [''january'', ''february'', ''march'', ''april'', ''may'', ''june'',
             ''july'', ''august'', ''september'', ''october'', ''november'', ''december'']"

definition abbr :: "string list" where
  "abbr = [''jan'', ''feb'', ''mar'', ''apr'', ''may'', ''jun'',
           ''jul'', ''aug'', ''sep'', ''oct'', ''nov'', ''dec'']"

text \<open>
  The loop \<open>for i, a in enumerate(names): if lower.startswith(a) or lower == a: return i + 1\<close>,
  started at index \<open>i\<close>; \<open>None\<close> when the loop falls through.
\<close>

fun first_prefix_index :: "string list \<Rightarrow> string \<Rightarrow> int \<Rightarrow> int option" where
  "first_prefix_index [] l i = None"
| "first_prefix_index (a # as) l i =
     (if startswith l a \<or> l = a then Some (i + 1) else first_prefix_index as l (i + 1))"

text \<open>The \<open>try\<close> block: the head of the token, then \<open>int\<close>, then the range test.\<close>

definition numeric_head :: "string \<Rightarrow> string option" where
  "numeric_head s =
     (if CHR ''-'' \<in> set s then first_item (split_on (CHR ''-'') s)
      else if CHR ''/'' \<in> set s then first_item (split_on (CHR ''/'') s)
      else Some s)"

definition month_index_from_string :: "string \<Rightarrow> int option" where
  "month_index_from_string val =
     (if val = [] then None
      else let s = strip val in
        if s = [] then None
        else let l = lower s in
          (case first_prefix_index abbr l 0 of
             Some i \<Rightarrow> Some i
           | None \<Rightarrow>
              (case first_prefix_index months l 0 of
                 Some i \<Rightarrow> Some i
               | None \<Rightarrow>
                  (case numeric_head s of
                     None \<Rightarrow> None
                   | Some h \<Rightarrow>
                      (case py_int h of
                         None \<Rightarrow> None
                       | Some n \<Rightarrow> if 1 \<le> n \<and> n \<le> 12 then Some n else None)))))"



section \<open>Monthly rows, range totals and month labels\<close>

text \<open>
  An element of \<open>monthly_forecasts\<close> is a JSON value: either not a dict (skipped by every
  loop) or a dict with a date token, a unit price and a quantity. The numbers are Python
  floats; their arithmetic is left abstract (any type with \<open>0\<close>, \<open>+\<close> and \<open>*\<close>), so
  that nothing proved below depends on exact arithmetic.
\<close>

datatype 'a monthly_row = NonDict | MonthlyRow (date: string) (unit_price: 'a) (quantity: 'a)

text \<open>\<open>float(x or 0)\<close>: a falsy number is replaced by \<open>0\<close>.\<close>

definition or_zero :: "'a::zero \<Rightarrow> 'a" where
  "or_zero x = (if x = 0 then 0 else x)"

fun range_totals_loop ::
  "('a::{zero,plus,times}) monthly_row list \<Rightarrow> int \<Rightarrow> int \<Rightarrow> 'a \<times> 'a \<Rightarrow> 'a \<times> 'a" where
  "range_totals_loop [] from_idx to_idx tot = tot"
| "range_totals_loop (NonDict # ms) from_idx to_idx tot = range_totals_loop ms from_idx to_idx tot"
| "range_totals_loop (MonthlyRow d p q # ms) from_idx to_idx (total_qty, total_amt) =
     (case month_index_from_string d of
        None \<Rightarrow> range_totals_loop ms from_idx to_idx (total_qty, total_amt)
      | Some mi \<Rightarrow>
          if from_idx \<le> mi \<and> mi \<le> to_idx then
            (let qty = or_zero q; price = or_zero p
             in range_totals_loop ms from_idx to_idx (total_qty + qty, total_amt + price * qty))
          else range_totals_loop ms from_idx to_idx (total_qty, total_amt))"

definition range_totals ::
  "('a::{zero,plus,times}) monthly_row list \<Rightarrow> int option \<Rightarrow> int option \<Rightarrow> 'a \<times> 'a" where
  "range_totals monthly_rows from_idx to_idx =
     (case (from_idx, to_idx) of
        (Some f, Some t) \<Rightarrow> range_totals_loop monthly_rows f t (0, 0)
      | _ \<Rightarrow> (0, 0))"

definition month_names_full :: "string list" where
  "month_names_full = [''January'', ''February'', ''March'', ''April'', ''May'', ''June'',
     ''July'', ''August'', ''September'', ''October'', ''November'', ''December'']"

text \<open>
  The loop of \<open>_months_label_from_rows\<close>. The list \<open>names\<close> and the set \<open>seen\<close> always
  hold the same strings, so the model keeps the list only.
\<close>

definition row_label_name :: "string \<Rightarrow> string" where
  "row_label_name d =
     (case month_index_from_string d of
        Some idx \<Rightarrow> if 1 \<le> idx \<and> idx \<le> 12 then month_names_full ! nat (idx - 1) else strip d
      | None \<Rightarrow> strip d)"

fun label_names :: "'a monthly_row list \<Rightarrow> string list \<Rightarrow> string list" where
  "label_names [] names = names"
| "label_names (NonDict # ms) names = label_names ms names"
| "label_names (MonthlyRow d p q # ms) names =
     (let name = row_label_name d
      in if name \<noteq> [] \<and> name \<notin> set names then label_names ms (names @ [name])
         else label_names ms names)"

text \<open>The placeholder is the string literal of the source file, as UTF-8 bytes.\<close>

definition placeholder :: string where
  "placeholder = [CHR 0xC3, CHR 0xA2, CHR 0xE2, CHR 0x82, CHR 0xAC, CHR 0xE2, CHR 0x80, CHR 0x9D]"

definition months_label_from_rows :: "'a monthly_row list \<Rightarrow> string" where
  "months_label_from_rows monthly_rows =
     (let names = label_names monthly_rows []
      in if names \<noteq> [] then join '', '' names else placeholder)"


subsection \<open>The selected range of \<open>admin_dashboard\<close> and of \<open>get_forecasts_by_customer\<close>\<close>

definition month_names_upper :: "string list" where
  "month_names_upper = [''JANUARY'', ''FEBRUARY'', ''MARCH'', ''APRIL'', ''MAY'', ''JUNE'',
     ''JULY'', ''AUGUST'', ''SEPTEMBER'', ''OCTOBER'', ''NOVEMBER'', ''DECEMBER'']"

definition range_label :: "int \<Rightarrow> int \<Rightarrow> string" where
  "range_label from_idx to_idx =
     month_names_upper ! nat (from_idx - 1) @ '' to '' @ month_names_upper ! nat (to_idx - 1)"

definition token_index :: "string \<Rightarrow> int option" where
  "token_index tok = (if tok \<noteq> [] then month_index_from_string tok else None)"

record 'a selected_range =
  range_label_of :: string
  per_forecast :: "('a \<times> 'a) list"
  total_qty_all :: 'a
  total_amt_all :: 'a

text \<open>
  \<open>admin_dashboard\<close>: \<open>None\<close> is the state in which the three \<open>forecast_selected_*\<close>
  variables keep their initial \<open>None\<close>. The argument is the list of the
  \<open>monthly_forecasts\<close> of the forecasts shown.
\<close>

definition dashboard_selected_range ::
  "('a::{zero,plus,times}) monthly_row list list \<Rightarrow> string \<Rightarrow> string \<Rightarrow> 'a selected_range option" where
  "dashboard_selected_range forecasts forecast_from_month forecast_to_month =
     (case (token_index forecast_from_month, token_index forecast_to_month) of
        (Some f0, Some t0) \<Rightarrow>
          (let (from_idx, to_idx) = (if f0 > t0 then (t0, f0) else (f0, t0));
               per = map (\<lambda>rows. range_totals rows (Some from_idx) (Some to_idx)) forecasts
           in Some \<lparr> range_label_of = range_label from_idx to_idx,
                     per_forecast = per,
                     total_qty_all = foldl (\<lambda>a (qty, amt). a + qty) 0 per,
                     total_amt_all = foldl (\<lambda>a (qty, amt). a + amt) 0 per \<rparr>)
      | _ \<Rightarrow> None)"

fun api_total_range ::
  "('a::{zero,plus,times}) monthly_row list \<Rightarrow> int \<Rightarrow> int \<Rightarrow> 'a \<Rightarrow> 'a" where
  "api_total_range [] from_idx to_idx total_range = total_range"
| "api_total_range (NonDict # ms) from_idx to_idx total_range =
     api_total_range ms from_idx to_idx total_range"
| "api_total_range (MonthlyRow d p q # ms) from_idx to_idx total_range =
     (case month_index_from_string d of
        None \<Rightarrow> api_total_range ms from_idx to_idx total_range
      | Some mi \<Rightarrow>
          if from_idx \<le> mi \<and> mi \<le> to_idx
          then api_total_range ms from_idx to_idx (total_range + p * q)
          else api_total_range ms from_idx to_idx total_range)"

datatype api_error = BadRequest

text \<open>
  \<open>get_forecasts_by_customer\<close>, from the month tokens on: the 400 response, or the label
  with the \<open>total_amount_selected_months\<close> of every forecast (\<open>None\<close> when no range was
  asked for).
\<close>

definition api_selected_range ::
  "('a::{zero,plus,times}) monthly_row list list \<Rightarrow> string \<Rightarrow> string
     \<Rightarrow> api_error + (string \<times> 'a list) option" where
  "api_selected_range forecasts from_month to_month =
     (let from_idx = token_index from_month; to_idx = token_index to_month
      in if (from_month \<noteq> [] \<or> to_month \<noteq> []) \<and> (from_idx = None \<or> to_idx = None)
         then Inl BadRequest
         else (case (from_idx, to_idx) of
                 (Some f0, Some t0) \<Rightarrow>
                   (let (f, t) = (if f0 > t0 then (t0, f0) else (f0, t0))
                    in Inr (Some (range_label f t, map (\<lambda>rows. api_total_range rows f t 0) forecasts)))
               | _ \<Rightarrow> Inr None))"


section \<open>Customer parts (\<open>_unique_partname_for_customer\<close>, \<open>_ensure_customer_part_entry\<close>)\<close>

text \<open>\<open>str(i)\<close> for a natural number: its decimal digits.\<close>

definition digit_char :: "nat \<Rightarrow> char" where
  "digit_char d = ''0123456789'' ! d"

fun str_nat :: "nat \<Rightarrow> string" where
  "str_nat n = (if n < 10 then [digit_char n] else str_nat (n div 10) @ [digit_char (n mod 10)])"

declare str_nat.simps [simp del]

text \<open>
  \<open>re.sub(r"\s+", " ", s)\<close>: every maximal run of whitespace becomes one blank. The flag
  says that the previous character belonged to a run already replaced.
\<close>

primrec collapse_ws :: "bool \<Rightarrow> string \<Rightarrow> string" where
  "collapse_ws inrun [] = []"
| "collapse_ws inrun (c # cs) =
     (if is_space c then (if inrun then collapse_ws True cs else CHR '' '' # collapse_ws True cs)
      else c # collapse_ws False cs)"

text \<open>\<open>_normalize_space(s)\<close>; \<open>None\<close> is Python's \<open>None\<close>, read as the empty string.\<close>

definition normalize_space :: "string option \<Rightarrow> string" where
  "normalize_space s = collapse_ws False (strip (case s of None \<Rightarrow> [] | Some x \<Rightarrow> x))"

text \<open>
  An element of \<open>customer.parts\<close> is a JSON value: either not a dict, or a dict whose
  \<open>get("Partcode")\<close> and \<open>get("Partname")\<close> are a string or \<open>None\<close>.
\<close>

datatype part_entry = NotADict | PartDict (Partcode: "string option") (Partname: "string option")

text \<open>
  The first loop of both functions: the \<open>Partname\<close> of the first dict whose normalized
  \<open>Partcode\<close> is \<open>part_code\<close>; \<open>None\<close> when the loop falls through.
\<close>

fun lookup_partcode :: "part_entry list \<Rightarrow> string \<Rightarrow> string option option" where
  "lookup_partcode [] part_code = None"
| "lookup_partcode (NotADict # ps) part_code = lookup_partcode ps part_code"
| "lookup_partcode (PartDict c n # ps) part_code =
     (if normalize_space c = part_code then Some n else lookup_partcode ps part_code)"

fun existing_names :: "part_entry list \<Rightarrow> string set" where
  "existing_names [] = {}"
| "existing_names (NotADict # ps) = existing_names ps"
| "existing_names (PartDict c n # ps) =
     (if normalize_space n \<noteq> [] then insert (lower (normalize_space n)) (existing_names ps)
      else existing_names ps)"

text \<open>
  The \<open>while True\<close> loop, started at \<open>i\<close>. Nothing in the loop bounds it, so the model
  is a partial function: \<open>None\<close> is the loop that never returns.
\<close>

partial_function (option) suffix_search :: "string \<Rightarrow> string set \<Rightarrow> nat \<Rightarrow> string option" where
  "suffix_search base_name names i =
     (if lower (base_name @ '' '' @ str_nat i) \<notin> names then Some (base_name @ '' '' @ str_nat i)
      else suffix_search base_name names (i + 1))"

declare suffix_search.simps [code]

definition unique_partname_for_customer :: "part_entry list \<Rightarrow> string \<Rightarrow> string \<Rightarrow> string option" where
  "unique_partname_for_customer parts base_name0 part_code0 =
     (let base_name = normalize_space (Some base_name0);
          part_code = normalize_space (Some part_code0)
      in case lookup_partcode parts part_code of
           Some n \<Rightarrow> Some (let existing = normalize_space n in if existing \<noteq> [] then existing else base_name)
         | None \<Rightarrow>
             (if lower base_name \<notin> existing_names parts then Some base_name
              else suffix_search base_name (existing_names parts) 1))"

text \<open>
  \<open>_ensure_customer_part_entry\<close> returns \<open>(changed, used_partname)\<close> and saves the list;
  the model returns the saved list as the third component.
\<close>

definition ensure_customer_part_entry ::
  "part_entry list \<Rightarrow> string \<Rightarrow> string \<Rightarrow> (bool \<times> string \<times> part_entry list) option" where
  "ensure_customer_part_entry parts part_code0 part_name0 =
     (let part_code = normalize_space (Some part_code0);
          part_name = (let n = normalize_space (Some part_name0) in if n \<noteq> [] then n else part_code)
      in case lookup_partcode parts part_code of
           Some n \<Rightarrow> Some (False, (let used = normalize_space n in if used \<noteq> [] then used else part_name), parts)
         | None \<Rightarrow>
             (case unique_partname_for_customer parts part_name part_code of
                None \<Rightarrow> None
              | Some unique_name \<Rightarrow>
                  Some (True, unique_name, parts @ [PartDict (Some part_code) (Some unique_name)])))"


section \<open>Regular expressions: the fragment of Python's \<open>re\<close> that the allocator uses\<close>

text \<open>
  The allocator builds two patterns from the base name with \<open>re.escape\<close> and has them
  matched case-insensitively: by the database (\<open>mat_partname__iregex\<close>) and by
  \<open>re.match\<close>. Both are modelled by one small engine: \<open>re_escape\<close>, a parser from pattern
  strings to syntax trees that fails where the pattern is malformed (or outside the
  fragment), and a backtracking matcher that returns the match states in the order of
  preference. The \<open>iregex\<close> lookup is taken as Django runs it on SQLite, that is by
  \<open>re.search\<close> with the flag \<open>(?i)\<close>.
\<close>

definition backslash :: char where
  "backslash = CHR 0x5C"

text \<open>The characters that \<open>re.escape\<close> protects (\<open>_special_chars_map\<close>).\<close>

definition re_special :: "char list" where
  "re_special = [CHR ''('', CHR '')'', CHR ''['', CHR '']'', CHR ''{'', CHR ''}'', CHR ''?'',
     CHR ''*'', CHR ''+'', CHR ''-'', CHR ''|'', CHR ''^'', CHR ''$'', CHR 0x5C, CHR ''.'',
     CHR ''&'', CHR ''~'', CHR ''#'', CHR '' '', CHR 0x09, CHR 0x0A, CHR 0x0D, CHR 0x0B, CHR 0x0C]"

definition re_escape :: "string \<Rightarrow> string" where
  "re_escape s = concat (map (\<lambda>c. if c \<in> set re_special then [backslash, c] else [c]) s)"

datatype rx =
    Lit char | AnyChar | Digit | Space | Bol | Eol
  | Cat "rx list" | Alts "rx list"
  | Opt rx | Star rx | Plus rx
  | Group "nat option" rx

datatype re_error =
    BadEscape | MissingParen | UnbalancedParen | NothingToRepeat | MultipleRepeat | Unsupported

definition is_alnum :: "char \<Rightarrow> bool" where
  "is_alnum c = (c \<in> set ''abcdefghijklmnopqrstuvwxyzABCDEFGHIJKLMNOPQRSTUVWXYZ0123456789'')"

text \<open>
  The atom for a backslash followed by \<open>e\<close>. Letters and digits are class or control
  escapes, the other ones of which are outside the fragment or no escapes at all; any
  other character stands for itself.
\<close>

definition escape_atom :: "char \<Rightarrow> re_error + rx" where
  "escape_atom e =
     (if e = CHR ''d'' then Inr Digit
      else if e = CHR ''s'' then Inr Space
      else if e = CHR ''n'' then Inr (Lit (CHR 0x0A))
      else if e = CHR ''t'' then Inr (Lit (CHR 0x09))
      else if e = CHR ''r'' then Inr (Lit (CHR 0x0D))
      else if e = CHR ''f'' then Inr (Lit (CHR 0x0C))
      else if e = CHR ''v'' then Inr (Lit (CHR 0x0B))
      else if is_alnum e then Inl BadEscape
      else Inr (Lit e))"

text \<open>
  A frame of the parser: the alternatives of the group closed so far, the atoms of the
  current alternative (both newest first), and the capture index of the group.
\<close>

type_synonym frame = "rx list \<times> rx list \<times> nat option"

definition close_frame :: "rx list \<Rightarrow> rx list \<Rightarrow> rx" where
  "close_frame alts cur = (if alts = [] then Cat (rev cur) else Alts (rev (Cat (rev cur) # alts)))"

definition is_repeat :: "rx \<Rightarrow> bool" where
  "is_repeat a = (case a of Opt _ \<Rightarrow> True | Star _ \<Rightarrow> True | Plus _ \<Rightarrow> True | _ \<Rightarrow> False)"

definition is_anchor :: "rx \<Rightarrow> bool" where
  "is_anchor a = (case a of Bol \<Rightarrow> True | Eol \<Rightarrow> True | _ \<Rightarrow> False)"

definition quantify :: "char \<Rightarrow> rx \<Rightarrow> rx" where
  "quantify c a = (if c = CHR ''?'' then Opt a else if c = CHR ''*'' then Star a else Plus a)"

fun parse :: "string \<Rightarrow> nat \<Rightarrow> frame \<Rightarrow> frame list \<Rightarrow> re_error + rx" where
  "parse [] ng (alts, cur, cap) st =
     (if st = [] then Inr (close_frame alts cur) else Inl MissingParen)"
| "parse (c # cs) ng (alts, cur, cap) st =
     (if c = backslash then
        (case cs of
           [] \<Rightarrow> Inl BadEscape
         | e # cs' \<Rightarrow>
             (case escape_atom e of
                Inl err \<Rightarrow> Inl err
              | Inr a \<Rightarrow> parse cs' ng (alts, a # cur, cap) st))
      else if c = CHR ''('' then
        (case cs of
           [] \<Rightarrow> Inl MissingParen
         | q # cs' \<Rightarrow>
             if q = CHR ''?'' then
               (case cs' of
                  [] \<Rightarrow> Inl Unsupported
                | k # cs'' \<Rightarrow>
                    if k = CHR '':'' then parse cs'' ng ([], [], None) ((alts, cur, cap) # st)
                    else Inl Unsupported)
             else parse cs (ng + 1) ([], [], Some ng) ((alts, cur, cap) # st))
      else if c = CHR '')'' then
        (case st of
           [] \<Rightarrow> Inl UnbalancedParen
         | (alts', cur', cap') # st' \<Rightarrow>
             parse cs ng (alts', Group cap (close_frame alts cur) # cur', cap') st')
      else if c = CHR ''|'' then parse cs ng (Cat (rev cur) # alts, [], cap) st
      else if c = CHR ''?'' \<or> c = CHR ''*'' \<or> c = CHR ''+'' then
        (case cur of
           [] \<Rightarrow> Inl NothingToRepeat
         | a # as \<Rightarrow>
             if is_anchor a then Inl NothingToRepeat
             else if is_repeat a then (if c = CHR ''?'' then Inl Unsupported else Inl MultipleRepeat)
             else parse cs ng (alts, quantify c a # as, cap) st)
      else if c = CHR ''.'' then parse cs ng (alts, AnyChar # cur, cap) st
      else if c = CHR ''^'' then parse cs ng (alts, Bol # cur, cap) st
      else if c = CHR ''$'' then parse cs ng (alts, Eol # cur, cap) st
      else if c = CHR ''['' \<or> c = CHR ''{'' then Inl Unsupported
      else parse cs ng (alts, Lit c # cur, cap) st)"

definition re_compile :: "string \<Rightarrow> re_error + rx" where
  "re_compile pattern = parse pattern 1 ([], [], None) []"

text \<open>
  A match state: whether the position is the start of the string, the text still to be
  read, and the groups captured so far (newest first).
\<close>

type_synonym mstate = "bool \<times> string \<times> (nat \<times> string) list"

primrec seq_all :: "(mstate \<Rightarrow> mstate list) list \<Rightarrow> mstate \<Rightarrow> mstate list" where
  "seq_all [] s = [s]"
| "seq_all (f # fs) s = concat (map (seq_all fs) (f s))"

primrec alt_all :: "(mstate \<Rightarrow> mstate list) list \<Rightarrow> mstate \<Rightarrow> mstate list" where
  "alt_all [] s = []"
| "alt_all (f # fs) s = f s @ alt_all fs s"

text \<open>
  Greedy repetition, at most \<open>n\<close> times; an iteration counts only when it consumes text,
  so the length of the text bounds the number of iterations.
\<close>

primrec rep :: "nat \<Rightarrow> (mstate \<Rightarrow> mstate list) \<Rightarrow> mstate \<Rightarrow> mstate list" where
  "rep 0 f s = [s]"
| "rep (Suc n) f s =
     concat (map (rep n f) (filter (\<lambda>s'. length (fst (snd s')) < length (fst (snd s))) (f s))) @ [s]"

definition one_char :: "(char \<Rightarrow> bool) \<Rightarrow> mstate \<Rightarrow> mstate list" where
  "one_char ok s =
     (case fst (snd s) of
        [] \<Rightarrow> []
      | d # t \<Rightarrow> if ok d then [(False, t, snd (snd s))] else [])"

definition capture :: "nat \<Rightarrow> mstate \<Rightarrow> mstate \<Rightarrow> mstate" where
  "capture i s s' =
     (fst s', fst (snd s'),
      (i, take (length (fst (snd s)) - length (fst (snd s'))) (fst (snd s))) # snd (snd s'))"

text \<open>The matcher under \<open>re.IGNORECASE\<close>: all states in which the expression can stop.\<close>

primrec matches :: "rx \<Rightarrow> mstate \<Rightarrow> mstate list" where
  "matches (Lit c) s = one_char (\<lambda>d. lower_char d = lower_char c) s"
| "matches AnyChar s = one_char (\<lambda>d. d \<noteq> CHR 0x0A) s"
| "matches Digit s = one_char is_digit s"
| "matches Space s = one_char is_space s"
| "matches Bol s = (if fst s then [s] else [])"
| "matches Eol s = (if fst (snd s) = [] \<or> fst (snd s) = [CHR 0x0A] then [s] else [])"
| "matches (Cat rs) s = seq_all (map matches rs) s"
| "matches (Alts rs) s = alt_all (map matches rs) s"
| "matches (Opt r) s = matches r s @ [s]"
| "matches (Star r) s = rep (Suc (length (fst (snd s)))) (matches r) s"
| "matches (Plus r) s = concat (map (rep (length (fst (snd s))) (matches r)) (matches r s))"
| "matches (Group cap r) s =
     (case cap of None \<Rightarrow> matches r s | Some i \<Rightarrow> map (capture i s) (matches r s))"

text \<open>\<open>m.group(i)\<close> of a match object: \<open>None\<close> when the group took no part.\<close>

definition group :: "(nat \<times> string) list \<Rightarrow> nat \<Rightarrow> string option" where
  "group m i = map_of m i"

text \<open>\<open>re.match(pattern, text, flags=re.IGNORECASE)\<close>: the groups of the preferred match.\<close>

definition re_match :: "string \<Rightarrow> string \<Rightarrow> re_error + (nat \<times> string) list option" where
  "re_match pattern text =
     (case re_compile pattern of
        Inl err \<Rightarrow> Inl err
      | Inr r \<Rightarrow> Inr (case matches r (True, text, []) of [] \<Rightarrow> None | s # _ \<Rightarrow> Some (snd (snd s))))"

text \<open>\<open>re.search\<close>, case-insensitive: a match starting at some position of the text.\<close>

fun search_from :: "rx \<Rightarrow> bool \<Rightarrow> string \<Rightarrow> bool" where
  "search_from r at_start [] = (matches r (at_start, [], []) \<noteq> [])"
| "search_from r at_start (c # t) =
     (if matches r (at_start, c # t, []) \<noteq> [] then True else search_from r False t)"

definition iregex :: "string \<Rightarrow> string \<Rightarrow> re_error + bool" where
  "iregex pattern text =
     (case re_compile pattern of
        Inl err \<Rightarrow> Inl err
      | Inr r \<Rightarrow> Inr (search_from r True text))"


section \<open>Material names within a TEP code (\<open>_allocate_material_name\<close>)\<close>

text \<open>
  The scope is the result of \<open>Material.objects.filter(tep_code=tep)\<close>: the materials of one
  TEP code in the order of their primary keys. Of a row only the two fields that the
  allocator reads or writes are kept; a row keeps its position for life, since nothing here
  deletes rows and new rows get larger keys.
\<close>

record material =
  mat_partcode :: string
  mat_partname :: string

datatype alloc_error = PatternError re_error | ValueError

text \<open>The pattern strings \<open>rf"^{re.escape(base)}( \d+)?$"\<close> and \<open>rf"^{re.escape(base)}(?: (\d+))?$"\<close>.\<close>

definition base_pattern :: "string \<Rightarrow> string" where
  "base_pattern base = ''^'' @ re_escape base @ ''( '' @ [backslash] @ ''d+)?$''"

definition number_pattern :: "string \<Rightarrow> string" where
  "number_pattern base = ''^'' @ re_escape base @ ''(?: ('' @ [backslash] @ ''d+))?$''"

text \<open>The \<open>iregex\<close> filter, row by row.\<close>

fun filter_iregex :: "string \<Rightarrow> material list \<Rightarrow> re_error + material list" where
  "filter_iregex pattern [] = Inr []"
| "filter_iregex pattern (m # ms) =
     (case iregex pattern (mat_partname m) of
        Inl err \<Rightarrow> Inl err
      | Inr hit \<Rightarrow>
          (case filter_iregex pattern ms of
             Inl err \<Rightarrow> Inl err
           | Inr rest \<Rightarrow> Inr (if hit then m # rest else rest)))"

text \<open>
  The body of the loop over \<open>existing_names\<close>: the number that the name contributes to
  \<open>numbers\<close>, if any. \<open>int\<close> of the group is a branch of its own although the group can
  only hold digits.
\<close>

definition number_of_name :: "string \<Rightarrow> string \<Rightarrow> alloc_error + int option" where
  "number_of_name pattern n =
     (case re_match pattern (strip n) of
        Inl err \<Rightarrow> Inl (PatternError err)
      | Inr None \<Rightarrow> Inr None
      | Inr (Some m) \<Rightarrow>
          (case group m 1 of
             None \<Rightarrow> Inr None
           | Some g \<Rightarrow>
               if g = [] then Inr None
               else (case py_int g of None \<Rightarrow> Inl ValueError | Some v \<Rightarrow> Inr (Some v))))"

fun collect_numbers :: "string \<Rightarrow> string list \<Rightarrow> alloc_error + int list" where
  "collect_numbers pattern [] = Inr []"
| "collect_numbers pattern (n # ns) =
     (case number_of_name pattern n of
        Inl err \<Rightarrow> Inl err
      | Inr v \<Rightarrow>
          (case collect_numbers pattern ns of
             Inl err \<Rightarrow> Inl err
           | Inr rest \<Rightarrow> Inr ((case v of None \<Rightarrow> [] | Some k \<Rightarrow> [k]) @ rest)))"

text \<open>\<open>str\<close> of an integer, as the f-string formats \<open>max(numbers) + 1\<close>.\<close>

definition str_int :: "int \<Rightarrow> string" where
  "str_int i = (if i < 0 then CHR ''-'' # str_nat (nat (- i)) else str_nat (nat i))"

text \<open>
  \<open>first = existing_base.order_by("id").first()\<close> followed by the save of the new name:
  the first row that satisfies the filter is renamed, if there is one.
\<close>

fun rename_first :: "(material \<Rightarrow> bool) \<Rightarrow> string \<Rightarrow> material list \<Rightarrow> material list" where
  "rename_first p new_name [] = []"
| "rename_first p new_name (m # ms) =
     (if p m then m\<lparr>mat_partname := new_name\<rparr> # ms else m # rename_first p new_name ms)"

text \<open>\<open>base = (base_name or "").strip() or "UNKNOWN"\<close>.\<close>

definition effective_base :: "string \<Rightarrow> string" where
  "effective_base base_name = (if strip base_name \<noteq> [] then strip base_name else ''UNKNOWN'')"

text \<open>
  \<open>_allocate_material_name(tep, base_name, exclude_partcode)\<close>: the name for the new
  material, and the scope after the call. \<open>iexact\<close> compares the lower-cased strings.
\<close>

definition allocate_material_name ::
  "material list \<Rightarrow> string \<Rightarrow> string \<Rightarrow> alloc_error + string \<times> material list" where
  "allocate_material_name tep base_name exclude_partcode0 =
     (let base = effective_base base_name;
          exclude_partcode = strip exclude_partcode0
      in case filter_iregex (base_pattern base) tep of
           Inl err \<Rightarrow> Inl (PatternError err)
         | Inr matching \<Rightarrow>
             (let qs = (if exclude_partcode \<noteq> []
                        then filter (\<lambda>m. mat_partcode m \<noteq> exclude_partcode) matching
                        else matching);
                  existing_names = map mat_partname qs
              in if existing_names = [] then Inr (base, tep)
                 else
                   (case collect_numbers (number_pattern base) existing_names of
                      Inl err \<Rightarrow> Inl err
                    | Inr [] \<Rightarrow>
                        Inr (base @ '' 2'',
                             rename_first
                               (\<lambda>m. lower (mat_partname m) = lower base
                                    \<and> (exclude_partcode = [] \<or> mat_partcode m \<noteq> exclude_partcode))
                               (base @ '' 1'') tep)
                    | Inr (n # ns) \<Rightarrow> Inr (base @ '' '' @ str_int (fold max ns n + 1), tep))))"

text \<open>The caller stores the returned name on a new row (\<open>Material.objects.create\<close>).\<close>

definition store_new :: "material list \<Rightarrow> string \<Rightarrow> string \<Rightarrow> material list" where
  "store_new tep partcode name = tep @ [\<lparr>mat_partcode = partcode, mat_partname = name\<rparr>]"


text \<open>
  A run of calls, each given as base name, excluded part code and the part code of the
  new row that stores the returned name: all the scopes passed through, in order (before a
  call, after its rename, after the new row is stored).
\<close>

fun allocation_trace ::
  "material list \<Rightarrow> (string \<times> string \<times> string) list \<Rightarrow> alloc_error + material list list" where
  "allocation_trace tep [] = Inr [tep]"
| "allocation_trace tep ((base_name, exclude_partcode, new_partcode) # calls) =
     (case allocate_material_name tep base_name exclude_partcode of
        Inl err \<Rightarrow> Inl err
      | Inr (name, tep') \<Rightarrow>
          (case allocation_trace (store_new tep' new_partcode name) calls of
             Inl err \<Rightarrow> Inl err
           | Inr tr \<Rightarrow> Inr (tep # tep' # tr)))"

text \<open>The names returned by the calls of a run, in order.\<close>

fun allocated_names ::
  "material list \<Rightarrow> (string \<times> string \<times> string) list \<Rightarrow> alloc_error + string list" where
  "allocated_names tep [] = Inr []"
| "allocated_names tep ((base_name, exclude_partcode, new_partcode) # calls) =
     (case allocate_material_name tep base_name exclude_partcode of
        Inl err \<Rightarrow> Inl err
      | Inr (name, tep') \<Rightarrow>
          (case allocated_names (store_new tep' new_partcode name) calls of
             Inl err \<Rightarrow> Inl err
           | Inr names \<Rightarrow> Inr (name # names)))"

text \<open>No two rows of the scope have the same name up to case.\<close>

definition ci_distinct :: "material list \<Rightarrow> bool" where
  "ci_distinct tep = distinct (map (\<lambda>m. lower (mat_partname m)) tep)"

text \<open>
  How often the name of the row at position \<open>i\<close> changes between consecutive scopes of a
  trace.
\<close>

fun renames_at :: "nat \<Rightarrow> material list list \<Rightarrow> nat" where
  "renames_at i (s # s' # tr) =
     (if i < length s \<and> i < length s' \<and> mat_partname (s ! i) \<noteq> mat_partname (s' ! i) then 1 else 0)
     + renames_at i (s' # tr)"
| "renames_at i tr = 0"



section \<open>Auxiliary notions for the proofs\<close>

text \<open>
  \<open>norm_ok True s\<close>: the string is not empty, neither starts nor ends with whitespace, and
  its only whitespace is single blanks. The flag says that the previous character was
  whitespace (or that there is none).
\<close>

primrec norm_ok :: "bool \<Rightarrow> string \<Rightarrow> bool" where
  "norm_ok prev [] = (\<not> prev)"
| "norm_ok prev (c # cs) =
     (if is_space c then c = CHR '' '' \<and> \<not> prev \<and> norm_ok True cs else norm_ok False cs)"

text \<open>The value of a string of decimal digits.\<close>

definition digits_value :: "string \<Rightarrow> nat" where
  "digits_value ds = foldl (\<lambda>a c. a * 10 + digit_val c) 0 ds"


text \<open>
  What the matcher does on the two patterns of the allocator, stated without the engine:
  the text left after a case-insensitive copy of the base, the end of the text as \<open>$\<close>
  accepts it, the states in which a greedy run of digits can stop, and the digits of a
  numbered tail (a blank, digits, the end).
\<close>

definition newline :: char where
  "newline = CHR 0x0A"

definition tail_after :: "string \<Rightarrow> string \<Rightarrow> string option" where
  "tail_after b n =
     (if length b \<le> length n \<and> lower (take (length b) n) = lower b
      then Some (drop (length b) n) else None)"

definition is_eol :: "string \<Rightarrow> bool" where
  "is_eol t = (t = [] \<or> t = [newline])"

fun digit_run :: "bool \<Rightarrow> string \<Rightarrow> (nat \<times> string) list \<Rightarrow> mstate list" where
  "digit_run a [] g = [(a, [], g)]"
| "digit_run a (d # t) g =
     (if is_digit d then digit_run False t g @ [(a, d # t, g)] else [(a, d # t, g)])"

definition number_tail :: "string \<Rightarrow> string option" where
  "number_tail t =
     (case t of
        [] \<Rightarrow> None
      | c # t' \<Rightarrow>
          if c = CHR '' '' \<and> takeWhile is_digit t' \<noteq> [] \<and> is_eol (dropWhile is_digit t')
          then Some (takeWhile is_digit t') else None)"


text \<open>
  A name matches the base: it is the base up to case, or the base up to case followed by a
  numbered tail (\<open>$\<close> also accepts one final newline). The number of a name is read from
  the stripped name.
\<close>

definition name_matches :: "string \<Rightarrow> string \<Rightarrow> bool" where
  "name_matches b n =
     (case tail_after b n of None \<Rightarrow> False | Some t \<Rightarrow> is_eol t \<or> number_tail t \<noteq> None)"

definition name_number :: "string \<Rightarrow> string \<Rightarrow> nat option" where
  "name_number b n =
     (case tail_after b (strip n) of
        None \<Rightarrow> None
      | Some t \<Rightarrow> map_option digits_value (number_tail t))"

text \<open>The result of the allocator for an effective base and a stripped excluded code.\<close>

definition alloc_outcome :: "material list \<Rightarrow> string \<Rightarrow> string \<Rightarrow> string \<times> material list" where
  "alloc_outcome tep base ex =
     (let qs = filter (\<lambda>m. name_matches base (mat_partname m) \<and> (ex = [] \<or> mat_partcode m \<noteq> ex)) tep
      in if qs = [] then (base, tep)
         else (case List.map_filter (name_number base) (map mat_partname qs) of
                 [] \<Rightarrow>
                   (base @ '' 2'',
                    rename_first (\<lambda>m. lower (mat_partname m) = lower base
                                       \<and> (ex = [] \<or> mat_partcode m \<noteq> ex)) (base @ '' 1'') tep)
               | k # ks \<Rightarrow> (base @ '' '' @ str_nat (fold max ks k + 1), tep)))"

text \<open>
  The syntax trees of the two patterns: the start, one literal for each character of the
  base, the optional numbered tail (capturing the tail, or its digits), the end.
\<close>

definition base_rx :: "string \<Rightarrow> rx" where
  "base_rx b = Cat (Bol # map Lit b @ [Opt (Group (Some 1) (Cat [Lit (CHR '' ''), Plus Digit])), Eol])"

definition number_rx :: "string \<Rightarrow> rx" where
  "number_rx b =
     Cat (Bol # map Lit b
          @ [Opt (Group None (Cat [Lit (CHR '' ''), Group (Some 1) (Cat [Plus Digit])])), Eol])"

text \<open>A base as the allocator uses it: not empty, no whitespace at either end.\<close>

definition clean_base :: "string \<Rightarrow> bool" where
  "clean_base b = (b \<noteq> [] \<and> \<not> is_space (hd b) \<and> \<not> is_space (last b))"


section \<open>Facts about month tokens\<close>





lemma strip_Nil [simp]: "strip [] = []"
  by (simp add: strip_def)

text \<open>
  C6. \<open>ResolveMonthIndex\<close> maps \<open>Jan-2026\<close> to 1 and \<open>december\<close> to 12, and maps \<open>13\<close>
  and the empty string to the unparseable value \<open>None\<close>.
\<close>

theorem month_index_examples:
  "month_index_from_string ''Jan-2026'' = Some 1
   \<and> month_index_from_string ''december'' = Some 12
   \<and> month_index_from_string ''13'' = None
   \<and> month_index_from_string '''' = None"
  by code_simp





section \<open>Facts about range totals and labels\<close>

lemma month_index_from_string_nonempty: "month_index_from_string tok = Some i \<Longrightarrow> tok \<noteq> []"
  by (auto simp: month_index_from_string_def)

lemma token_index_parseable: "month_index_from_string tok = Some i \<Longrightarrow> token_index tok = Some i"
  using month_index_from_string_nonempty [of tok i] by (simp add: token_index_def)

lemma range_totals_loop_append:
  "range_totals_loop (xs @ ys) f t tot = range_totals_loop ys f t (range_totals_loop xs f t tot)"
  by (induction xs f t tot rule: range_totals_loop.induct)
     (auto split: option.splits simp: Let_def)

lemma api_total_range_append:
  "api_total_range (xs @ ys) f t tot = api_total_range ys f t (api_total_range xs f t tot)"
  by (induction xs f t tot rule: api_total_range.induct) (auto split: option.splits)

lemma label_names_append:
  "label_names (xs @ ys) names = label_names ys (label_names xs names)"
  by (induction xs names rule: label_names.induct) (auto simp: Let_def)

lemma label_names_keeps: "set names \<subseteq> set (label_names rows names)"
  by (induction rows names rule: label_names.induct) (auto simp: Let_def)

lemma label_names_unparseable:
  assumes "month_index_from_string d = None" and "strip d \<noteq> []"
  shows "strip d \<in> set (label_names (MonthlyRow d p q # post) names)"
proof -
  have n: "row_label_name d = strip d"
    using assms(1) by (simp add: row_label_name_def)
  show ?thesis
  proof (cases "strip d \<in> set names")
    case True
    then show ?thesis using label_names_keeps [of names "MonthlyRow d p q # post"] by blast
  next
    case False
    then have "label_names (MonthlyRow d p q # post) names = label_names post (names @ [strip d])"
      using assms(2) n by (simp add: Let_def)
    then show ?thesis using label_names_keeps [of "names @ [strip d]" post] by auto
  qed
qed

text \<open>
  C8. For every list of forecasts and every pair of parseable month tokens, the selected
  range computed with the tokens in one order equals the one computed with the tokens in
  the other order, label and totals alike, in the dashboard as well as in the API
  endpoint: the indices are swapped when the first is the larger.
\<close>

theorem selected_range_swap:
  assumes "month_index_from_string a = Some i" and "month_index_from_string b = Some j"
  shows "dashboard_selected_range forecasts a b = dashboard_selected_range forecasts b a
       \<and> api_selected_range forecasts a b = api_selected_range forecasts b a"
proof -
  have ta: "token_index a = Some i" and tb: "token_index b = Some j"
    using assms by (simp_all add: token_index_parseable)
  have ne: "a \<noteq> []" "b \<noteq> []"
    using assms by (auto dest: month_index_from_string_nonempty)
  consider "i < j" | "i = j" | "j < i" by linarith
  then show ?thesis
  proof cases
    case 1
    then show ?thesis by (simp add: dashboard_selected_range_def api_selected_range_def ta tb ne)
  next
    case 2
    then show ?thesis by (simp add: dashboard_selected_range_def api_selected_range_def ta tb ne)
  next
    case 3
    then show ?thesis by (simp add: dashboard_selected_range_def api_selected_range_def ta tb ne)
  qed
qed

theorem selected_range_swap_witness:
  "month_index_from_string ''March'' = Some 3 \<and> month_index_from_string ''January'' = Some 1
   \<and> dashboard_selected_range
        [[MonthlyRow ''Jan-2026'' (10::int) 5, MonthlyRow ''Feb-2026'' 20 2,
          MonthlyRow ''Mar-2026'' 5 100]] ''March'' ''January''
     = dashboard_selected_range
        [[MonthlyRow ''Jan-2026'' (10::int) 5, MonthlyRow ''Feb-2026'' 20 2,
          MonthlyRow ''Mar-2026'' 5 100]] ''January'' ''March''
   \<and> api_selected_range
        [[MonthlyRow ''Jan-2026'' (10::int) 5, MonthlyRow ''Feb-2026'' 20 2,
          MonthlyRow ''Mar-2026'' 5 100]] ''March'' ''January''
     = api_selected_range
        [[MonthlyRow ''Jan-2026'' (10::int) 5, MonthlyRow ''Feb-2026'' 20 2,
          MonthlyRow ''Mar-2026'' 5 100]] ''January'' ''March''"
proof -
  have h1: "month_index_from_string ''March'' = Some 3" by code_simp
  have h2: "month_index_from_string ''January'' = Some 1" by code_simp
  from selected_range_swap [OF h1 h2] h1 h2 show ?thesis by blast
qed

text \<open>
  C9, the claim as stated fails: the token \<open>???\<close> is unparseable, and the label generated
  for a row with that token after a January row names it.
\<close>

theorem unparseable_token_in_label_counterexample:
  "month_index_from_string ''???'' = None
   \<and> months_label_from_rows [MonthlyRow ''Jan-2026'' (10::int) 5, MonthlyRow ''???'' 1 1]
       = ''January, ???''"
  by code_simp

text \<open>
  C9, amended. For every record sequence containing a record whose date token is
  unparseable, the record contributes nothing to the total quantity or the total amount
  (the totals are those of the sequence without it), and its token, stripped of
  surrounding whitespace, is passed through unchanged as one of the names joined into the
  month label whenever it is not empty. No step of either function can raise on such a
  record: the models are total.
\<close>

theorem unparseable_row_skipped_in_totals:
  assumes "month_index_from_string d = None"
  shows "range_totals (pre @ MonthlyRow d p q # post) from_idx to_idx
           = range_totals (pre @ post) from_idx to_idx
       \<and> (strip d \<noteq> [] \<longrightarrow>
            strip d \<in> set (label_names (pre @ MonthlyRow d p q # post) [])
            \<and> months_label_from_rows (pre @ MonthlyRow d p q # post)
                = join '', '' (label_names (pre @ MonthlyRow d p q # post) []))"
proof -
  have loop: "range_totals_loop (pre @ MonthlyRow d p q # post) f t (0, 0)
                = range_totals_loop (pre @ post) f t (0, 0)" for f t
  proof -
    obtain tq ta where acc: "range_totals_loop pre f t (0, 0) = (tq, ta)"
      by (cases "range_totals_loop pre f t (0::'a, 0::'a)") auto
    show ?thesis
      using assms by (simp add: range_totals_loop_append acc)
  qed
  have totals: "range_totals (pre @ MonthlyRow d p q # post) from_idx to_idx
                  = range_totals (pre @ post) from_idx to_idx"
    by (cases from_idx; cases to_idx) (simp_all add: range_totals_def loop)
  have label: "strip d \<in> set (label_names (pre @ MonthlyRow d p q # post) [])" if "strip d \<noteq> []"
    using label_names_unparseable [OF assms that] by (simp add: label_names_append)
  have "months_label_from_rows (pre @ MonthlyRow d p q # post)
          = join '', '' (label_names (pre @ MonthlyRow d p q # post) [])" if "strip d \<noteq> []"
  proof -
    from label [OF that] have "label_names (pre @ MonthlyRow d p q # post) [] \<noteq> []" by auto
    then show ?thesis by (simp add: months_label_from_rows_def Let_def)
  qed
  with totals label show ?thesis by blast
qed

theorem unparseable_row_skipped_in_totals_witness:
  "month_index_from_string ''???'' = None
   \<and> range_totals [MonthlyRow ''Jan-2026'' (10::int) 5, MonthlyRow ''???'' 7 9,
                    MonthlyRow ''Feb-2026'' 20 2] (Some 1) (Some 2) = (7, 90)
   \<and> ''???'' \<in> set (label_names [MonthlyRow ''Jan-2026'' (10::int) 5, MonthlyRow ''???'' 7 9,
                                  MonthlyRow ''Feb-2026'' 20 2] [])"
proof -
  have h: "month_index_from_string ''???'' = None" by code_simp
  have s: "strip ''???'' = ''???''" by code_simp
  have v: "range_totals ([MonthlyRow ''Jan-2026'' (10::int) 5] @ [MonthlyRow ''Feb-2026'' 20 2])
             (Some 1) (Some 2) = (7, 90)"
    by code_simp
  from unparseable_row_skipped_in_totals [OF h, of "[MonthlyRow ''Jan-2026'' (10::int) 5]" 7 9
      "[MonthlyRow ''Feb-2026'' 20 2]" "Some 1" "Some 2"] h s v
  show ?thesis by simp
qed


section \<open>Facts about whitespace, digits and customer parts\<close>


lemma norm_ok_last: "norm_ok p s \<Longrightarrow> s \<noteq> [] \<Longrightarrow> \<not> is_space (last s)"
  by (induction s arbitrary: p) (auto split: if_splits)

lemma norm_ok_collapse: "norm_ok p s \<Longrightarrow> (q \<longrightarrow> p) \<Longrightarrow> collapse_ws q s = s"
  by (induction s arbitrary: p q) (auto split: if_splits)

lemma strip_id: "s \<noteq> [] \<Longrightarrow> \<not> is_space (hd s) \<Longrightarrow> \<not> is_space (last s) \<Longrightarrow> strip s = s"
proof -
  assume a: "s \<noteq> []" "\<not> is_space (hd s)" "\<not> is_space (last s)"
  have 1: "dropWhile is_space s = s" using a by (cases s) auto
  have "rev s \<noteq> []" "\<not> is_space (hd (rev s))" using a by (simp_all add: hd_rev)
  then have 2: "dropWhile is_space (rev s) = rev s" by (cases "rev s") auto
  show ?thesis by (simp add: strip_def 1 2)
qed

lemma norm_ok_strip: "norm_ok True s \<Longrightarrow> strip s = s"
proof (cases s)
  case Nil then show ?thesis by simp
next
  case (Cons c cs)
  assume n: "norm_ok True s"
  with Cons have "\<not> is_space (hd s)" by (auto split: if_splits)
  moreover have "\<not> is_space (last s)" using n Cons norm_ok_last by blast
  ultimately show ?thesis using Cons strip_id by blast
qed

lemma is_space_blank [simp]: "is_space (CHR '' '')"
  by (simp add: is_space_def)

lemma collapse_norm_ok:
  "(t \<noteq> [] \<longrightarrow> \<not> is_space (last t)) \<Longrightarrow> (t = [] \<longrightarrow> \<not> q) \<Longrightarrow> norm_ok q (collapse_ws q t)"
proof (induction t arbitrary: q)
  case Nil
  then show ?case by simp
next
  case (Cons c cs)
  show ?case
  proof (cases "is_space c")
    case True
    with Cons.prems have ne: "cs \<noteq> []" by auto
    with Cons.prems have "norm_ok True (collapse_ws True cs)" by (intro Cons.IH) auto
    with True show ?thesis by simp
  next
    case False
    from Cons.prems have "norm_ok False (collapse_ws False cs)" by (intro Cons.IH) auto
    with False show ?thesis by simp
  qed
qed

lemma dropWhile_last: "dropWhile P xs \<noteq> [] \<Longrightarrow> last (dropWhile P xs) = last xs"
  by (induction xs) (auto split: if_splits)

lemma strip_ends:
  assumes "strip x \<noteq> []"
  shows "\<not> is_space (hd (strip x))" and "\<not> is_space (last (strip x))"
proof -
  let ?y = "dropWhile is_space x"
  let ?z = "dropWhile is_space (rev ?y)"
  have z: "?z \<noteq> []" using assms by (simp add: strip_def)
  have y: "?y \<noteq> []"
  proof
    assume "?y = []"
    then have "?z = []" by (simp del: dropWhile_eq_Nil_conv)
    with z show False by simp
  qed
  have "\<not> is_space (hd ?z)" using z hd_dropWhile by blast
  then show "\<not> is_space (last (strip x))" using z by (simp add: strip_def last_rev)
  have "last ?z = last (rev ?y)" using z by (rule dropWhile_last)
  also have "\<dots> = hd ?y" using y by (simp add: last_rev)
  finally have "hd (strip x) = hd ?y" using z by (simp add: strip_def hd_rev)
  then show "\<not> is_space (hd (strip x))" using y hd_dropWhile by metis
qed

lemma normalize_space_norm_ok:
  assumes "normalize_space x \<noteq> []"
  shows "norm_ok True (normalize_space x)"
proof -
  let ?t = "strip (case x of None \<Rightarrow> [] | Some v \<Rightarrow> v)"
  from assms have ne: "?t \<noteq> []" by (auto simp: normalize_space_def)
  then obtain c cs where t: "?t = c # cs" by (cases ?t) auto
  have c: "\<not> is_space c" using strip_ends(1) [OF ne] t by simp
  have l: "cs \<noteq> [] \<longrightarrow> \<not> is_space (last cs)" using strip_ends(2) [OF ne] t by auto
  have "norm_ok False (collapse_ws False cs)" using l by (intro collapse_norm_ok) auto
  then show ?thesis using c t by (simp add: normalize_space_def)
qed

lemma norm_ok_fixed: "norm_ok True s \<Longrightarrow> normalize_space (Some s) = s"
  by (simp add: normalize_space_def norm_ok_strip norm_ok_collapse [where p = True])

lemma normalize_space_Nil [simp]: "normalize_space (Some []) = []"
  by (simp add: normalize_space_def)

lemma normalize_space_idem: "normalize_space (Some (normalize_space x)) = normalize_space x"
  by (cases "normalize_space x = []") (simp_all add: norm_ok_fixed normalize_space_norm_ok)

lemma norm_ok_append: "norm_ok p xs \<Longrightarrow> xs \<noteq> [] \<Longrightarrow> norm_ok False ys \<Longrightarrow> norm_ok p (xs @ ys)"
proof (induction xs arbitrary: p)
  case Nil
  then show ?case by simp
next
  case (Cons c xs)
  then show ?case by (cases "xs = []") (auto split: if_splits)
qed

lemma norm_ok_no_space: "ds \<noteq> [] \<Longrightarrow> \<forall>c \<in> set ds. \<not> is_space c \<Longrightarrow> norm_ok p ds"
proof (induction ds arbitrary: p)
  case Nil
  then show ?case by simp
next
  case (Cons c ds)
  then show ?case by (cases "ds = []") auto
qed

lemma below_ten:
  "d < 10 \<Longrightarrow> d = 0 \<or> d = 1 \<or> d = 2 \<or> d = 3 \<or> d = 4 \<or> d = 5 \<or> d = 6 \<or> d = 7 \<or> d = 8 \<or> d = (9::nat)"
  by arith

lemma digit_char_digit: "d < 10 \<Longrightarrow> is_digit (digit_char d)"
  by (drule below_ten, elim disjE) (simp_all add: digit_char_def is_digit_def)

lemma digit_val_digit_char: "d < 10 \<Longrightarrow> digit_val (digit_char d) = d"
  by (drule below_ten, elim disjE) (simp_all add: digit_char_def digit_val_def)

lemma is_digit_cases:
  "is_digit c \<Longrightarrow> c = CHR ''0'' \<or> c = CHR ''1'' \<or> c = CHR ''2'' \<or> c = CHR ''3'' \<or> c = CHR ''4''
     \<or> c = CHR ''5'' \<or> c = CHR ''6'' \<or> c = CHR ''7'' \<or> c = CHR ''8'' \<or> c = CHR ''9''"
  by (simp add: is_digit_def)

lemma is_digit_not_space: "is_digit c \<Longrightarrow> \<not> is_space c"
  by (drule is_digit_cases, elim disjE) (simp_all add: is_space_def)

lemma is_digit_lower: "is_digit c \<Longrightarrow> lower_char c = c"
  by (drule is_digit_cases, elim disjE) (simp_all add: lower_char_def)

lemma str_nat_digits: "\<forall>c \<in> set (str_nat n). is_digit c"
proof (induction n rule: str_nat.induct)
  case (1 n)
  show ?case
  proof (cases "n < 10")
    case True
    then show ?thesis by (subst str_nat.simps) (simp add: digit_char_digit)
  next
    case False
    with 1 have "\<forall>c \<in> set (str_nat (n div 10)). is_digit c" by simp
    with False show ?thesis by (subst str_nat.simps) (simp add: digit_char_digit)
  qed
qed

lemma str_nat_nonempty: "str_nat n \<noteq> []"
  by (subst str_nat.simps) auto


lemma digits_value_str_nat: "digits_value (str_nat n) = n"
proof (induction n rule: str_nat.induct)
  case (1 n)
  show ?case
  proof (cases "n < 10")
    case True
    then show ?thesis by (subst str_nat.simps) (simp add: digits_value_def digit_val_digit_char)
  next
    case False
    with 1 have "digits_value (str_nat (n div 10)) = n div 10" by simp
    with False show ?thesis
      by (subst str_nat.simps) (simp add: digits_value_def digit_val_digit_char)
  qed
qed

lemma str_nat_inj: "str_nat i = str_nat j \<Longrightarrow> i = j"
proof -
  assume "str_nat i = str_nat j"
  then have "digits_value (str_nat i) = digits_value (str_nat j)" by simp
  then show ?thesis by (simp add: digits_value_str_nat)
qed

lemma lower_digits: "\<forall>c \<in> set ds. is_digit c \<Longrightarrow> lower ds = ds"
  by (induction ds) (auto simp: lower_def is_digit_lower)

lemma candidate_inj:
  "lower (b @ '' '' @ str_nat i) = lower (b @ '' '' @ str_nat j) \<Longrightarrow> i = j"
proof -
  assume "lower (b @ '' '' @ str_nat i) = lower (b @ '' '' @ str_nat j)"
  then have "lower (str_nat i) = lower (str_nat j)" by (simp add: lower_def)
  then have "str_nat i = str_nat j" by (simp add: lower_digits str_nat_digits)
  then show ?thesis by (rule str_nat_inj)
qed


lemma lower_Nil_iff: "lower s = [] \<longleftrightarrow> s = []"
  by (simp add: lower_def)

lemma existing_names_card: "finite (existing_names parts) \<and> card (existing_names parts) \<le> length parts"
proof (induction parts)
  case Nil
  then show ?case by simp
next
  case (Cons p ps)
  then have f: "finite (existing_names ps)" and c: "card (existing_names ps) \<le> length ps"
    by simp_all
  show ?case
  proof (cases p)
    case NotADict
    with f c show ?thesis by simp
  next
    case (PartDict code n)
    have "card (insert (lower (normalize_space n)) (existing_names ps)) \<le> Suc (card (existing_names ps))"
      using f by (simp add: card_insert_if)
    with f c PartDict show ?thesis by simp
  qed
qed

lemma existing_names_nonempty: "[] \<notin> existing_names parts"
proof (induction parts)
  case Nil
  then show ?case by simp
next
  case (Cons p ps)
  then show ?case by (cases p) (auto simp: lower_def)
qed

lemma suffix_search_found:
  assumes "\<forall>j. i \<le> j \<and> j < k \<longrightarrow> lower (b @ '' '' @ str_nat j) \<in> names"
      and "lower (b @ '' '' @ str_nat k) \<notin> names" and "i \<le> k"
  shows "suffix_search b names i = Some (b @ '' '' @ str_nat k)"
  using assms
proof (induction "k - i" arbitrary: i)
  case 0
  then have "i = k" by simp
  with 0 show ?case by (subst suffix_search.simps) simp
next
  case (Suc n)
  then have lt: "i < k" by simp
  with Suc.prems have used: "lower (b @ '' '' @ str_nat i) \<in> names" by simp
  have "suffix_search b names (i + 1) = Some (b @ '' '' @ str_nat k)"
  proof (rule Suc.hyps(1))
    show "n = k - (i + 1)" using Suc.hyps(2) by simp
    show "\<forall>j. i + 1 \<le> j \<and> j < k \<longrightarrow> lower (b @ '' '' @ str_nat j) \<in> names"
      using Suc.prems(1) by simp
    show "lower (b @ '' '' @ str_nat k) \<notin> names" by (rule Suc.prems(2))
    show "i + 1 \<le> k" using lt by simp
  qed
  with used show ?case by (subst suffix_search.simps) simp
qed

lemma free_candidate_exists:
  assumes "finite names" and "card names \<le> n"
  shows "\<exists>k. 1 \<le> k \<and> k \<le> n + 1 \<and> lower (b @ '' '' @ str_nat k) \<notin> names"
proof (rule ccontr)
  assume "\<not> ?thesis"
  then have sub: "(\<lambda>k. lower (b @ '' '' @ str_nat k)) ` {1..n + 1} \<subseteq> names" by auto
  have "inj_on (\<lambda>k. lower (b @ '' '' @ str_nat k)) {1..n + 1}"
    by (rule inj_onI) (rule candidate_inj)
  then have "card ((\<lambda>k. lower (b @ '' '' @ str_nat k)) ` {1..n + 1}) = n + 1"
    by (simp add: card_image)
  moreover have "card ((\<lambda>k. lower (b @ '' '' @ str_nat k)) ` {1..n + 1}) \<le> card names"
    using sub assms(1) by (rule card_mono [rotated])
  ultimately show False using assms(2) by simp
qed

lemma suffix_search_bound:
  "\<exists>k. 1 \<le> k \<and> k \<le> length parts + 1
       \<and> suffix_search b (existing_names parts) 1 = Some (b @ '' '' @ str_nat k)
       \<and> lower (b @ '' '' @ str_nat k) \<notin> existing_names parts"
proof -
  let ?P = "\<lambda>k. 1 \<le> k \<and> lower (b @ '' '' @ str_nat k) \<notin> existing_names parts"
  obtain k0 where k0: "?P k0" "k0 \<le> length parts + 1"
    using free_candidate_exists [of "existing_names parts" "length parts" b] existing_names_card [of parts]
    by blast
  define k where "k = (LEAST k. ?P k)"
  have Pk: "?P k" unfolding k_def using k0(1) by (rule LeastI)
  have le: "k \<le> k0" unfolding k_def using k0(1) by (rule Least_le)
  have below: "\<forall>j. 1 \<le> j \<and> j < k \<longrightarrow> lower (b @ '' '' @ str_nat j) \<in> existing_names parts"
  proof (intro allI impI)
    fix j assume j: "1 \<le> j \<and> j < k"
    then have "\<not> ?P j" unfolding k_def using not_less_Least by blast
    with j show "lower (b @ '' '' @ str_nat j) \<in> existing_names parts" by simp
  qed
  have "suffix_search b (existing_names parts) 1 = Some (b @ '' '' @ str_nat k)"
    using below Pk by (intro suffix_search_found) simp_all
  with Pk le k0(2) show ?thesis by (intro exI [of _ k]) simp
qed

lemma lookup_partcode_append:
  "lookup_partcode (xs @ ys) c =
     (case lookup_partcode xs c of Some n \<Rightarrow> Some n | None \<Rightarrow> lookup_partcode ys c)"
  by (induction xs c rule: lookup_partcode.induct) simp_all

lemma candidate_fixed:
  assumes "normalize_space (Some b) = b" and "b \<noteq> []"
  shows "normalize_space (Some (b @ '' '' @ str_nat k)) = b @ '' '' @ str_nat k"
proof -
  have nb: "norm_ok True b" using normalize_space_norm_ok [of "Some b"] assms by simp
  have "\<forall>c \<in> set (str_nat k). \<not> is_space c"
    using str_nat_digits [of k] is_digit_not_space by blast
  then have "norm_ok True (str_nat k)" using str_nat_nonempty by (intro norm_ok_no_space)
  then have "norm_ok False ('' '' @ str_nat k)" by simp
  with nb assms(2) have "norm_ok True (b @ '' '' @ str_nat k)" by (rule norm_ok_append)
  then show ?thesis by (rule norm_ok_fixed)
qed

lemma unique_partname_returns:
  assumes "lookup_partcode parts c = None" and "normalize_space (Some c) = c"
      and "normalize_space (Some b) = b"
  shows "\<exists>un. unique_partname_for_customer parts b c = Some un
            \<and> (normalize_space (Some un) = un)
            \<and> (un = [] \<longrightarrow> b = [])"
proof (cases "lower b \<in> existing_names parts")
  case False
  with assms show ?thesis by (simp add: unique_partname_for_customer_def)
next
  case True
  then have ne: "b \<noteq> []" using existing_names_nonempty [of parts] by (auto simp: lower_def)
  obtain k where k: "suffix_search b (existing_names parts) 1 = Some (b @ '' '' @ str_nat k)"
    using suffix_search_bound [of parts b] by blast
  have "unique_partname_for_customer parts b c = Some (b @ '' '' @ str_nat k)"
    using assms True k by (simp add: unique_partname_for_customer_def)
  moreover have "normalize_space (Some (b @ '' '' @ str_nat k)) = b @ '' '' @ str_nat k"
    using assms(3) ne by (rule candidate_fixed)
  ultimately show ?thesis by simp
qed

lemma ensure_twice:
  "\<exists>changed name parts'.
      ensure_customer_part_entry parts part_code part_name = Some (changed, name, parts')
    \<and> ensure_customer_part_entry parts' part_code part_name = Some (False, name, parts')
    \<and> (\<not> changed \<longrightarrow> parts' = parts)"
proof -
  define c where "c = normalize_space (Some part_code)"
  define pn where "pn = (let n = normalize_space (Some part_name) in if n \<noteq> [] then n else c)"
  have cfix: "normalize_space (Some c) = c" by (simp add: c_def normalize_space_idem)
  have pfix: "normalize_space (Some pn) = pn"
    by (simp add: pn_def Let_def cfix normalize_space_idem)
  show ?thesis
  proof (cases "lookup_partcode parts c")
    case (Some n)
    let ?used = "let used = normalize_space n in if used \<noteq> [] then used else pn"
    from Some have "ensure_customer_part_entry parts part_code part_name = Some (False, ?used, parts)"
      by (simp add: ensure_customer_part_entry_def c_def [symmetric] pn_def [symmetric])
    then show ?thesis
      by (intro exI [of _ False] exI [of _ ?used] exI [of _ parts]) simp
  next
    case None
    from unique_partname_returns [OF None cfix pfix] obtain un
      where un: "unique_partname_for_customer parts pn c = Some un"
        and ufix: "normalize_space (Some un) = un" and uempty: "un = [] \<longrightarrow> pn = []"
      by blast
    let ?parts' = "parts @ [PartDict (Some c) (Some un)]"
    have first: "ensure_customer_part_entry parts part_code part_name = Some (True, un, ?parts')"
      using None un
      by (simp add: ensure_customer_part_entry_def c_def [symmetric] pn_def [symmetric])
    have look: "lookup_partcode ?parts' c = Some (Some un)"
      using None cfix by (simp add: lookup_partcode_append)
    have used: "(let used = normalize_space (Some un) in if used \<noteq> [] then used else pn) = un"
      using ufix uempty by (simp add: Let_def)
    have second: "ensure_customer_part_entry ?parts' part_code part_name = Some (False, un, ?parts')"
      using look used
      by (simp add: ensure_customer_part_entry_def c_def [symmetric] pn_def [symmetric])
    from first second show ?thesis
      by (intro exI [of _ True] exI [of _ un] exI [of _ ?parts']) simp
  qed
qed

lemma unique_partname_total:
  "\<exists>name. unique_partname_for_customer parts b c = Some name"
proof -
  obtain k where "suffix_search (normalize_space (Some b)) (existing_names parts) 1
                    = Some (normalize_space (Some b) @ '' '' @ str_nat k)"
    using suffix_search_bound [of parts "normalize_space (Some b)"] by blast
  then show ?thesis
    by (cases "lookup_partcode parts (normalize_space (Some c))")
       (simp_all add: unique_partname_for_customer_def Let_def)
qed

text \<open>
  C10. For every parts list and every base name, the suffix search returns: there is a
  \<open>k\<close> between 1 and the number of entries plus one such that the loop started at 1
  returns the candidate with suffix \<open>k\<close>, which is the \<open>k\<close>-th candidate tested and is
  not among the used names; hence \<open>_unique_partname_for_customer\<close> always returns.
\<close>

theorem suffix_search_terminates:
  "(\<exists>k. 1 \<le> k \<and> k \<le> length parts + 1
        \<and> suffix_search base_name (existing_names parts) 1 = Some (base_name @ '' '' @ str_nat k)
        \<and> lower (base_name @ '' '' @ str_nat k) \<notin> existing_names parts)
   \<and> (\<exists>name. unique_partname_for_customer parts base_name part_code = Some name)"
  using suffix_search_bound [of parts base_name] unique_partname_total [of parts base_name part_code]
  by blast

theorem suffix_search_terminates_witness:
  "(\<exists>k. 1 \<le> k
        \<and> k \<le> length [PartDict (Some ''P1'') (Some ''Tape''),
                         PartDict (Some ''P2'') (Some ''tape   1'')] + 1
        \<and> suffix_search ''Tape''
             (existing_names [PartDict (Some ''P1'') (Some ''Tape''),
                              PartDict (Some ''P2'') (Some ''tape   1'')]) 1
            = Some (''Tape'' @ '' '' @ str_nat k)
        \<and> lower (''Tape'' @ '' '' @ str_nat k)
            \<notin> existing_names [PartDict (Some ''P1'') (Some ''Tape''),
                                PartDict (Some ''P2'') (Some ''tape   1'')])
   \<and> unique_partname_for_customer
        [PartDict (Some ''P1'') (Some ''Tape''), PartDict (Some ''P2'') (Some ''tape   1'')]
        ''Tape'' ''P3'' = Some ''Tape 2''"
proof -
  have v: "unique_partname_for_customer
        [PartDict (Some ''P1'') (Some ''Tape''), PartDict (Some ''P2'') (Some ''tape   1'')]
        ''Tape'' ''P3'' = Some ''Tape 2''"
    by code_simp
  from suffix_search_terminates
    [of "[PartDict (Some ''P1'') (Some ''Tape''), PartDict (Some ''P2'') (Some ''tape   1'')]"
        "''Tape''" "''P3''"] v
  show ?thesis by blast
qed

text \<open>
  C5. For every parts list, part code and part name, a first call of
  \<open>_ensure_customer_part_entry\<close> returns, and a second call with the same arguments on
  the list saved by the first returns \<open>changed = False\<close> and the same name and leaves
  that list unchanged; a call that reports no change has not touched the list.
\<close>

theorem ensure_customer_part_entry_idempotent:
  "\<exists>changed name parts'.
      ensure_customer_part_entry parts part_code part_name = Some (changed, name, parts')
    \<and> ensure_customer_part_entry parts' part_code part_name = Some (False, name, parts')
    \<and> (\<not> changed \<longrightarrow> parts' = parts)"
  by (rule ensure_twice)

theorem ensure_customer_part_entry_idempotent_witness:
  "ensure_customer_part_entry [PartDict (Some ''P1'') (Some ''Tape'')] ''P3'' '' TAPE ''
     = Some (True, ''TAPE 1'',
             [PartDict (Some ''P1'') (Some ''Tape''), PartDict (Some ''P3'') (Some ''TAPE 1'')])
   \<and> ensure_customer_part_entry
        [PartDict (Some ''P1'') (Some ''Tape''), PartDict (Some ''P3'') (Some ''TAPE 1'')]
        ''P3'' '' TAPE ''
     = Some (False, ''TAPE 1'',
             [PartDict (Some ''P1'') (Some ''Tape''), PartDict (Some ''P3'') (Some ''TAPE 1'')])"
proof -
  have v: "ensure_customer_part_entry [PartDict (Some ''P1'') (Some ''Tape'')] ''P3'' '' TAPE ''
     = Some (True, ''TAPE 1'',
             [PartDict (Some ''P1'') (Some ''Tape''), PartDict (Some ''P3'') (Some ''TAPE 1'')])"
    by code_simp
  from ensure_customer_part_entry_idempotent
    [of "[PartDict (Some ''P1'') (Some ''Tape'')]" "''P3''" "'' TAPE ''"] v
  show ?thesis by auto
qed


section \<open>Facts about the regular expressions\<close>

declare parse.simps [simp del]

lemma not_special:
  "c \<notin> set re_special \<Longrightarrow>
     c \<noteq> backslash \<and> c \<noteq> CHR ''('' \<and> c \<noteq> CHR '')'' \<and> c \<noteq> CHR ''|'' \<and> c \<noteq> CHR ''?''
     \<and> c \<noteq> CHR ''*'' \<and> c \<noteq> CHR ''+'' \<and> c \<noteq> CHR ''.'' \<and> c \<noteq> CHR ''^'' \<and> c \<noteq> CHR ''$''
     \<and> c \<noteq> CHR ''['' \<and> c \<noteq> CHR ''{''"
  by (simp add: re_special_def backslash_def)

lemma parse_literal:
  "c \<notin> set re_special \<Longrightarrow>
     parse (c # cs) ng (alts, cur, cap) st = parse cs ng (alts, Lit c # cur, cap) st"
  by (drule not_special) (simp add: parse.simps)

lemma escape_atom_special: "\<forall>c \<in> set re_special. escape_atom c = Inr (Lit c)"
  by (simp add: re_special_def escape_atom_def is_alnum_def)

lemma parse_escaped:
  "c \<in> set re_special \<Longrightarrow>
     parse (backslash # c # cs) ng (alts, cur, cap) st = parse cs ng (alts, Lit c # cur, cap) st"
  using escape_atom_special by (simp add: parse.simps)

lemma re_escape_Cons:
  "re_escape (c # b) = (if c \<in> set re_special then [backslash, c] else [c]) @ re_escape b"
  by (simp add: re_escape_def)

lemma re_escape_Nil [simp]: "re_escape [] = []"
  by (simp add: re_escape_def)

lemma parse_re_escape:
  "parse (re_escape b @ rest) ng (alts, cur, cap) st
     = parse rest ng (alts, rev (map Lit b) @ cur, cap) st"
proof (induction b arbitrary: cur)
  case Nil
  then show ?case by simp
next
  case (Cons c b)
  show ?case
  proof (cases "c \<in> set re_special")
    case True
    then show ?thesis by (simp add: re_escape_Cons parse_escaped Cons.IH)
  next
    case False
    then show ?thesis by (simp add: re_escape_Cons parse_literal Cons.IH)
  qed
qed

lemma parse_hat:
  "parse (CHR ''^'' # cs) ng (alts, cur, cap) st = parse cs ng (alts, Bol # cur, cap) st"
  by (simp add: parse.simps backslash_def)

lemma compile_base_pattern: "re_compile (base_pattern b) = Inr (base_rx b)"
proof -
  have tail: "parse (''( '' @ [backslash] @ ''d+)?$'') 1 ([], rev (map Lit b) @ [Bol], None) []
                = Inr (base_rx b)"
    by (simp add: parse.simps backslash_def escape_atom_def close_frame_def is_repeat_def
          is_anchor_def quantify_def base_rx_def)
  show ?thesis
    unfolding re_compile_def base_pattern_def
    using tail by (simp add: parse_hat parse_re_escape)
qed

lemma compile_number_pattern: "re_compile (number_pattern b) = Inr (number_rx b)"
proof -
  have tail: "parse (''(?: ('' @ [backslash] @ ''d+))?$'') 1 ([], rev (map Lit b) @ [Bol], None) []
                = Inr (number_rx b)"
    by (simp add: parse.simps backslash_def escape_atom_def close_frame_def is_repeat_def
          is_anchor_def quantify_def number_rx_def)
  show ?thesis
    unfolding re_compile_def number_pattern_def
    using tail by (simp add: parse_hat parse_re_escape)
qed

lemma concat_seq_all_Nil: "concat (map (seq_all []) xs) = xs"
  by (induction xs) simp_all

lemma seq_all_single: "seq_all [f] s = f s"
  by (simp add: concat_seq_all_Nil)

lemma matches_Digit:
  "matches Digit (a, t, g) =
     (case t of [] \<Rightarrow> [] | d # t' \<Rightarrow> if is_digit d then [(False, t', g)] else [])"
  by (cases t) (simp_all add: one_char_def)

lemma matches_Lit:
  "matches (Lit c) (a, t, g) =
     (case t of [] \<Rightarrow> [] | d # t' \<Rightarrow> if lower_char d = lower_char c then [(False, t', g)] else [])"
  by (cases t) (simp_all add: one_char_def)

lemma seq_all_lits:
  "seq_all (map matches (map Lit b) @ fs) (a, t, g) =
     (if length b \<le> length t \<and> lower (take (length b) t) = lower b
      then seq_all fs (a \<and> b = [], drop (length b) t, g) else [])"
proof (induction b arbitrary: a t)
  case Nil
  then show ?case by (simp add: lower_def)
next
  case (Cons c b)
  show ?case
  proof (cases t)
    case Nil
    then show ?thesis by (simp add: one_char_def)
  next
    case (Cons d t')
    show ?thesis
    proof (cases "lower_char d = lower_char c")
      case True
      with Cons show ?thesis
        using Cons.IH [of False t'] by (simp add: one_char_def lower_def)
    next
      case False
      with Cons show ?thesis by (simp add: one_char_def lower_def)
    qed
  qed
qed

lemma rep_digit: "length t \<le> n \<Longrightarrow> rep n (matches Digit) (a, t, g) = digit_run a t g"
proof (induction n arbitrary: a t)
  case 0
  then show ?case by simp
next
  case (Suc n)
  show ?case
  proof (cases t)
    case Nil
    then show ?thesis by (simp add: matches_Digit del: matches.simps)
  next
    case (Cons d t')
    with Suc.prems have "length t' \<le> n" by simp
    then have "rep n (matches Digit) (False, t', g) = digit_run False t' g" by (rule Suc.IH)
    with Cons show ?thesis by (simp add: matches_Digit del: matches.simps)
  qed
qed

lemma plus_digit:
  "matches (Plus Digit) (a, t, g) =
     (case t of [] \<Rightarrow> [] | d # t' \<Rightarrow> if is_digit d then digit_run False t' g else [])"
proof (cases t)
  case Nil
  then show ?thesis by (simp add: one_char_def)
next
  case (Cons d t')
  have "rep (Suc (length t')) (matches Digit) (False, t', g) = digit_run False t' g"
    by (rule rep_digit) simp
  with Cons show ?thesis by (simp add: matches_Digit del: rep.simps matches.simps(3))
qed

lemma is_digit_not_newline: "is_digit d \<Longrightarrow> d \<noteq> newline"
  by (drule is_digit_cases, elim disjE) (simp_all add: newline_def)

lemma matches_Eol: "matches Eol (a, t, g) = (if is_eol t then [(a, t, g)] else [])"
  by (simp add: is_eol_def newline_def)

lemma eol_digit_run:
  "concat (map (matches Eol) (digit_run a t g)) =
     (if is_eol (dropWhile is_digit t)
      then [(a \<and> takeWhile is_digit t = [], dropWhile is_digit t, g)] else [])"
proof (induction t arbitrary: a)
  case Nil
  then show ?case by (simp add: matches_Eol del: matches.simps)
next
  case (Cons d t)
  show ?case
  proof (cases "is_digit d")
    case True
    then have "\<not> is_eol (d # t)" using is_digit_not_newline by (auto simp: is_eol_def)
    with True have step: "concat (map (matches Eol) (digit_run a (d # t) g))
                            = concat (map (matches Eol) (digit_run False t g))"
      by (simp add: matches_Eol del: matches.simps)
    show ?thesis unfolding step Cons.IH using True by simp
  next
    case False
    then show ?thesis by (simp add: matches_Eol del: matches.simps)
  qed
qed

lemma eol_plus_digit:
  "concat (map (matches Eol) (matches (Plus Digit) (a, t, g))) =
     (if takeWhile is_digit t \<noteq> [] \<and> is_eol (dropWhile is_digit t)
      then [(False, dropWhile is_digit t, g)] else [])"
proof (cases t)
  case Nil
  then show ?thesis by (simp add: plus_digit del: matches.simps)
next
  case (Cons d t')
  show ?thesis
  proof (cases "is_digit d")
    case True
    with Cons have "matches (Plus Digit) (a, t, g) = digit_run False t' g"
      by (simp add: plus_digit del: matches.simps)
    then have "concat (map (matches Eol) (matches (Plus Digit) (a, t, g)))
                 = (if is_eol (dropWhile is_digit t')
                    then [(False \<and> takeWhile is_digit t' = [], dropWhile is_digit t', g)] else [])"
      by (simp only: eol_digit_run)
    with Cons True show ?thesis by simp
  next
    case False
    with Cons show ?thesis by (simp add: plus_digit del: matches.simps)
  qed
qed


declare matches.simps [simp del]

lemma seq_all_single_fun: "seq_all [f] = f"
  by (rule ext) (rule seq_all_single)

lemma matches_Opt: "matches (Opt r) s = matches r s @ [s]"
  by (simp add: matches.simps)

lemma matches_Group_Some: "matches (Group (Some i) r) s = map (capture i s) (matches r s)"
  by (simp add: matches.simps)

lemma matches_Group_None: "matches (Group None r) s = matches r s"
  by (simp add: matches.simps)

lemma matches_Cat: "matches (Cat rs) s = seq_all (map matches rs) s"
  by (simp add: matches.simps)

lemma cat_bol:
  "matches (Cat (Bol # rs)) (a, t, g) = (if a then seq_all (map matches rs) (a, t, g) else [])"
  by (simp add: matches.simps)

lemma opt_then_eol:
  "seq_all [matches (Opt r), matches Eol] s
     = concat (map (matches Eol) (matches r s)) @ matches Eol s"
  by (simp add: seq_all_single_fun matches_Opt)

lemma eol_capture:
  "concat (map (matches Eol) (map (capture i s) xs)) = map (capture i s) (concat (map (matches Eol) xs))"
proof (induction xs)
  case Nil
  then show ?case by simp
next
  case (Cons x xs)
  obtain a t g where x: "x = (a, t, g)" by (cases x) auto
  have "matches Eol (capture i s x) = map (capture i s) (matches Eol x)"
    by (simp add: x capture_def matches.simps)
  with Cons show ?case by simp
qed

lemma lower_char_blank: "lower_char c = lower_char (CHR '' '') \<longleftrightarrow> c = CHR '' ''"
  by (simp add: lower_char_def)

lemma take_dropWhile_length: "take (length t - length (dropWhile P t)) t = takeWhile P t"
proof -
  have "length (takeWhile P t) + length (dropWhile P t) = length t"
    by (metis length_append takeWhile_dropWhile_id)
  then have "length t - length (dropWhile P t) = length (takeWhile P t)" by simp
  then show ?thesis by (subst takeWhile_eq_take) simp
qed

lemma blank_then:
  "matches (Cat [Lit (CHR '' ''), r]) (a, t, g) =
     (case t of [] \<Rightarrow> [] | c # t' \<Rightarrow> if c = CHR '' '' then matches r (False, t', g) else [])"
  by (cases t) (simp_all add: matches_Cat matches_Lit lower_char_blank seq_all_single_fun)

lemma blank_digits_eol:
  "concat (map (matches Eol) (matches (Cat [Lit (CHR '' ''), Plus Digit]) (a, t, g))) =
     (case number_tail t of
        None \<Rightarrow> []
      | Some ds \<Rightarrow> [(False, dropWhile is_digit (tl t), g)])"
proof (cases t)
  case Nil
  then show ?thesis by (simp add: blank_then number_tail_def)
next
  case (Cons c t')
  show ?thesis
  proof (cases "c = CHR '' ''")
    case True
    with Cons have "concat (map (matches Eol) (matches (Cat [Lit (CHR '' ''), Plus Digit]) (a, t, g)))
                      = concat (map (matches Eol) (matches (Plus Digit) (False, t', g)))"
      by (simp add: blank_then)
    then show ?thesis unfolding eol_plus_digit using Cons True by (simp add: number_tail_def)
  next
    case False
    with Cons show ?thesis by (simp add: blank_then number_tail_def)
  qed
qed

lemma base_group_eol:
  "concat (map (matches Eol) (matches (Group (Some 1) (Cat [Lit (CHR '' ''), Plus Digit])) (a, t, g))) \<noteq> []
     \<longleftrightarrow> number_tail t \<noteq> None"
proof -
  have "concat (map (matches Eol) (matches (Group (Some 1) (Cat [Lit (CHR '' ''), Plus Digit])) (a, t, g)))
          = map (capture 1 (a, t, g))
              (concat (map (matches Eol) (matches (Cat [Lit (CHR '' ''), Plus Digit]) (a, t, g))))"
    by (simp only: matches_Group_Some eol_capture)
  then show ?thesis unfolding blank_digits_eol by (cases "number_tail t") simp_all
qed

lemma number_group_eol:
  "concat (map (matches Eol)
      (matches (Group None (Cat [Lit (CHR '' ''), Group (Some 1) (Cat [Plus Digit])])) (a, t, g)))
     = (case number_tail t of
          None \<Rightarrow> []
        | Some ds \<Rightarrow> [(False, dropWhile is_digit (tl t), (1, ds) # g)])"
proof (cases t)
  case Nil
  then show ?thesis by (simp add: matches_Group_None blank_then number_tail_def)
next
  case (Cons c t')
  show ?thesis
  proof (cases "c = CHR '' ''")
    case False
    with Cons show ?thesis by (simp add: matches_Group_None blank_then number_tail_def)
  next
    case True
    have inner: "matches (Group (Some 1) (Cat [Plus Digit])) (False, t', g)
                   = map (capture 1 (False, t', g)) (matches (Plus Digit) (False, t', g))"
      by (simp add: matches_Group_Some matches_Cat seq_all_single_fun)
    have "concat (map (matches Eol)
            (matches (Group None (Cat [Lit (CHR '' ''), Group (Some 1) (Cat [Plus Digit])])) (a, t, g)))
          = concat (map (matches Eol) (matches (Group (Some 1) (Cat [Plus Digit])) (False, t', g)))"
      using Cons True by (simp add: matches_Group_None blank_then)
    also have "\<dots> = map (capture 1 (False, t', g))
                      (concat (map (matches Eol) (matches (Plus Digit) (False, t', g))))"
      unfolding inner by (rule eol_capture)
    also have "\<dots> = (if takeWhile is_digit t' \<noteq> [] \<and> is_eol (dropWhile is_digit t')
                    then [(False, dropWhile is_digit t', (1, takeWhile is_digit t') # g)] else [])"
      unfolding eol_plus_digit by (simp add: capture_def take_dropWhile_length)
    finally show ?thesis using Cons True by (simp add: number_tail_def)
  qed
qed

lemma lits_opt_eol:
  "seq_all (map matches (map Lit b) @ [matches (Opt r), matches Eol]) (True, n, []) =
     (case tail_after b n of
        None \<Rightarrow> []
      | Some t \<Rightarrow> concat (map (matches Eol) (matches r (b = [], t, []))) @ matches Eol (b = [], t, []))"
  unfolding seq_all_lits opt_then_eol by (simp add: tail_after_def)

lemma matches_base_rx:
  "matches (base_rx b) (True, n, []) \<noteq> [] \<longleftrightarrow> name_matches b n"
proof -
  let ?G = "Group (Some 1) (Cat [Lit (CHR '' ''), Plus Digit])"
  have "matches (base_rx b) (True, n, [])
          = seq_all (map matches (map Lit b) @ [matches (Opt ?G), matches Eol]) (True, n, [])"
    by (simp only: base_rx_def cat_bol if_True map_append list.map)
  then have eq: "matches (base_rx b) (True, n, []) =
     (case tail_after b n of
        None \<Rightarrow> []
      | Some t \<Rightarrow> concat (map (matches Eol) (matches ?G (b = [], t, []))) @ matches Eol (b = [], t, []))"
    by (simp only: lits_opt_eol)
  show ?thesis
  proof (cases "tail_after b n")
    case None
    then show ?thesis by (simp add: eq name_matches_def)
  next
    case (Some t)
    then have "matches (base_rx b) (True, n, []) \<noteq> [] \<longleftrightarrow>
        concat (map (matches Eol) (matches ?G (b = [], t, []))) \<noteq> [] \<or> is_eol t"
      by (simp add: eq matches_Eol)
    then show ?thesis unfolding base_group_eol using Some by (auto simp: name_matches_def)
  qed
qed

lemma matches_number_rx:
  "matches (number_rx b) (True, n, []) =
     (case tail_after b n of
        None \<Rightarrow> []
      | Some t \<Rightarrow>
          (case number_tail t of
             None \<Rightarrow> []
           | Some ds \<Rightarrow> [(False, dropWhile is_digit (tl t), [(1, ds)])])
          @ (if is_eol t then [(b = [], t, [])] else []))"
proof -
  let ?G = "Group None (Cat [Lit (CHR '' ''), Group (Some 1) (Cat [Plus Digit])])"
  have "matches (number_rx b) (True, n, [])
          = seq_all (map matches (map Lit b) @ [matches (Opt ?G), matches Eol]) (True, n, [])"
    by (simp only: number_rx_def cat_bol if_True map_append list.map)
  then have eq: "matches (number_rx b) (True, n, []) =
     (case tail_after b n of
        None \<Rightarrow> []
      | Some t \<Rightarrow> concat (map (matches Eol) (matches ?G (b = [], t, []))) @ matches Eol (b = [], t, []))"
    by (simp only: lits_opt_eol)
  show ?thesis
    unfolding eq number_group_eol by (simp add: matches_Eol split: option.splits)
qed

lemma search_from_base_rx:
  "search_from (base_rx b) True n = (matches (base_rx b) (True, n, []) \<noteq> [])"
proof -
  have no: "matches (base_rx b) (False, t, []) = []" for t
    by (simp add: base_rx_def cat_bol)
  have later: "search_from (base_rx b) False t = False" for t
    by (induction t) (simp_all add: no)
  show ?thesis by (cases n) (simp_all add: later)
qed

lemma iregex_base_pattern: "iregex (base_pattern b) n = Inr (name_matches b n)"
  by (simp add: iregex_def compile_base_pattern search_from_base_rx matches_base_rx)

lemma filter_iregex_base_pattern:
  "filter_iregex (base_pattern b) ms = Inr (filter (\<lambda>m. name_matches b (mat_partname m)) ms)"
  by (induction ms) (simp_all add: iregex_base_pattern)


lemma int_digits_all:
  "ds \<noteq> [] \<Longrightarrow> \<forall>c \<in> set ds. is_digit c \<Longrightarrow>
     int_digits ds acc prev = Some (foldl (\<lambda>a c. a * 10 + digit_val c) acc ds)"
proof (induction ds arbitrary: acc prev)
  case Nil
  then show ?case by simp
next
  case (Cons d ds)
  then show ?case by (cases "ds = []") simp_all
qed

lemma is_digit_not_sign: "is_digit c \<Longrightarrow> c \<noteq> CHR ''-'' \<and> c \<noteq> CHR ''+''"
  by (drule is_digit_cases, elim disjE) simp_all

lemma strip_digits: "ds \<noteq> [] \<Longrightarrow> \<forall>c \<in> set ds. is_digit c \<Longrightarrow> strip ds = ds"
proof (rule strip_id)
  assume a: "ds \<noteq> []" "\<forall>c \<in> set ds. is_digit c"
  show "ds \<noteq> []" by (rule a(1))
  from a have "is_digit (hd ds)" "is_digit (last ds)" by simp_all
  then show "\<not> is_space (hd ds)" "\<not> is_space (last ds)" by (simp_all add: is_digit_not_space)
qed

lemma py_int_digits:
  assumes "ds \<noteq> []" and "\<forall>c \<in> set ds. is_digit c"
  shows "py_int ds = Some (int (digits_value ds))"
proof -
  obtain c cs where ds: "ds = c # cs" using assms(1) by (cases ds) auto
  have "is_digit c" using assms(2) ds by simp
  then have sign: "c \<noteq> CHR ''-''" "c \<noteq> CHR ''+''" using is_digit_not_sign by blast+
  have "int_digits ds 0 False = Some (digits_value ds)"
    using int_digits_all [OF assms] by (simp add: digits_value_def)
  with sign show ?thesis
    using strip_digits [OF assms] by (simp add: py_int_def ds)
qed

lemma number_tail_digits:
  "number_tail t = Some ds \<Longrightarrow> ds \<noteq> [] \<and> (\<forall>c \<in> set ds. is_digit c)"
  by (cases t) (auto simp: number_tail_def split: if_splits dest: set_takeWhileD)

lemma re_match_number_pattern:
  "re_match (number_pattern b) x =
     Inr (case tail_after b x of
            None \<Rightarrow> None
          | Some t \<Rightarrow>
              (case number_tail t of
                 Some ds \<Rightarrow> Some [(1, ds)]
               | None \<Rightarrow> if is_eol t then Some [] else None))"
  by (simp add: re_match_def compile_number_pattern matches_number_rx split: option.splits)

lemma number_of_name_eq:
  "number_of_name (number_pattern b) n = Inr (map_option int (name_number b n))"
proof (cases "tail_after b (strip n)")
  case None
  then show ?thesis by (simp add: number_of_name_def re_match_number_pattern name_number_def)
next
  case (Some t)
  show ?thesis
  proof (cases "number_tail t")
    case None
    with Some show ?thesis
      by (simp add: number_of_name_def re_match_number_pattern name_number_def group_def)
  next
    case (Some ds)
    then have "ds \<noteq> []" and "py_int ds = Some (int (digits_value ds))"
      using number_tail_digits py_int_digits by blast+
    with Some \<open>tail_after b (strip n) = Some t\<close> show ?thesis
      by (simp add: number_of_name_def re_match_number_pattern name_number_def group_def)
  qed
qed

lemma collect_numbers_eq:
  "collect_numbers (number_pattern b) ns = Inr (map int (List.map_filter (name_number b) ns))"
  by (induction ns) (simp_all add: number_of_name_eq List.map_filter_simps split: option.splits)

lemma fold_max_int: "fold max (map int ks) (int k) = int (fold max ks k)"
  by (induction ks arbitrary: k) (simp_all add: max_def)

lemma str_int_nat: "str_int (int m + 1) = str_nat (m + 1)"
proof -
  have "nat (int m + 1) = m + 1" by simp
  then show ?thesis by (simp add: str_int_def del: of_nat_add)
qed

lemma allocate_eq:
  "allocate_material_name tep base_name exclude_partcode
     = Inr (alloc_outcome tep (effective_base base_name) (strip exclude_partcode))"
proof -
  define base where "base = effective_base base_name"
  define ex where "ex = strip exclude_partcode"
  define qs where
    "qs = filter (\<lambda>m. name_matches base (mat_partname m) \<and> (ex = [] \<or> mat_partcode m \<noteq> ex)) tep"
  have sel: "(if ex \<noteq> []
              then filter (\<lambda>m. mat_partcode m \<noteq> ex) (filter (\<lambda>m. name_matches base (mat_partname m)) tep)
              else filter (\<lambda>m. name_matches base (mat_partname m)) tep) = qs"
    by (simp add: qs_def)
  have unfolded: "allocate_material_name tep base_name exclude_partcode =
      (if map mat_partname qs = [] then Inr (base, tep)
       else (case collect_numbers (number_pattern base) (map mat_partname qs) of
               Inl err \<Rightarrow> Inl err
             | Inr [] \<Rightarrow>
                 Inr (base @ '' 2'',
                      rename_first (\<lambda>m. lower (mat_partname m) = lower base
                                         \<and> (ex = [] \<or> mat_partcode m \<noteq> ex)) (base @ '' 1'') tep)
             | Inr (n # ns) \<Rightarrow> Inr (base @ '' '' @ str_int (fold max ns n + 1), tep)))"
    unfolding allocate_material_name_def Let_def base_def [symmetric] ex_def [symmetric]
      filter_iregex_base_pattern sum.case sel
    by (rule refl)
  show ?thesis
  proof (cases "List.map_filter (name_number base) (map mat_partname qs)")
    case Nil
    then show ?thesis
      unfolding unfolded collect_numbers_eq alloc_outcome_def Let_def
        base_def [symmetric] ex_def [symmetric] qs_def [symmetric]
      by simp
  next
    case (Cons k ks)
    have "str_int (fold max (map int ks) (int k) + 1) = str_nat (fold max ks k + 1)"
      by (simp only: fold_max_int str_int_nat)
    with Cons show ?thesis
      unfolding unfolded collect_numbers_eq alloc_outcome_def Let_def
        base_def [symmetric] ex_def [symmetric] qs_def [symmetric]
      by simp
  qed
qed


section \<open>Facts about the allocator\<close>

lemma lower_char_fix:
  "lower_char c \<notin> set ''abcdefghijklmnopqrstuvwxyz'' \<Longrightarrow> lower_char c = c"
  by (simp add: lower_char_def split: if_splits)

lemma is_space_cases:
  "is_space c \<Longrightarrow> c = CHR '' '' \<or> c = CHR 0x09 \<or> c = CHR 0x0A \<or> c = CHR 0x0B \<or> c = CHR 0x0C
     \<or> c = CHR 0x0D \<or> c = CHR 0x1C \<or> c = CHR 0x1D \<or> c = CHR 0x1E \<or> c = CHR 0x1F"
  by (simp add: is_space_def)

lemma space_not_letter: "is_space c \<Longrightarrow> c \<notin> set ''abcdefghijklmnopqrstuvwxyz''"
  by (drule is_space_cases, elim disjE) simp_all

lemma digit_not_letter: "is_digit c \<Longrightarrow> c \<notin> set ''abcdefghijklmnopqrstuvwxyz''"
  by (drule is_digit_cases, elim disjE) simp_all

lemma lower_char_space: "is_space c \<Longrightarrow> lower_char c = c"
  by (drule is_space_cases, elim disjE) (simp_all add: lower_char_def)

lemma is_space_lower_char: "is_space (lower_char c) = is_space c"
proof
  assume s: "is_space (lower_char c)"
  then have "lower_char c = c" using space_not_letter lower_char_fix by blast
  with s show "is_space c" by simp
next
  assume "is_space c"
  then show "is_space (lower_char c)" by (simp add: lower_char_space)
qed

lemma is_digit_lower_char: "is_digit (lower_char c) \<Longrightarrow> lower_char c = c"
  using digit_not_letter lower_char_fix by blast

lemma lower_eq_digits: "\<forall>c \<in> set ds. is_digit c \<Longrightarrow> lower t = ds \<Longrightarrow> t = ds"
proof (induction t arbitrary: ds)
  case Nil
  then show ?case by (simp add: lower_def)
next
  case (Cons x t)
  then obtain d ds' where ds: "ds = d # ds'" "lower_char x = d" "lower t = ds'"
    by (auto simp: lower_def)
  with Cons.prems have "is_digit (lower_char x)" by simp
  then have "lower_char x = x" by (rule is_digit_lower_char)
  then have "x = d" using ds(2) by simp
  moreover have "t = ds'" using Cons.IH [of ds'] Cons.prems(1) ds by simp
  ultimately show ?case using ds by simp
qed

lemma lower_append: "lower (xs @ ys) = lower xs @ lower ys"
  by (simp add: lower_def)

lemma lower_length: "length (lower xs) = length xs"
  by (simp add: lower_def)

lemma lower_eq_length: "lower xs = lower ys \<Longrightarrow> length xs = length ys"
  using lower_length by metis

lemma lower_take: "lower (take k xs) = take k (lower xs)"
  by (simp add: lower_def take_map)

lemma lower_drop: "lower (drop k xs) = drop k (lower xs)"
  by (simp add: lower_def drop_map)

text \<open>A name that is the base up to case matches.\<close>

lemma bare_name_matches: "lower n = lower b \<Longrightarrow> name_matches b n"
proof -
  assume eq: "lower n = lower b"
  then have "length n = length b" by (rule lower_eq_length)
  with eq show ?thesis by (simp add: name_matches_def tail_after_def is_eol_def)
qed

lemma number_tail_str_nat: "number_tail (CHR '' '' # str_nat k) = Some (str_nat k)"
proof -
  have d: "\<forall>c \<in> set (str_nat k). is_digit c" by (rule str_nat_digits)
  have tw: "takeWhile is_digit (str_nat k) = str_nat k" using d by simp
  have dw: "dropWhile is_digit (str_nat k) = []" using d by simp
  show ?thesis
    by (simp add: number_tail_def tw dw str_nat_nonempty is_eol_def
          del: takeWhile_eq_all_conv dropWhile_eq_Nil_conv)
qed

lemma lower_numbered: "lower (b @ '' '' @ str_nat k) = lower b @ CHR '' '' # str_nat k"
proof -
  have "map lower_char (str_nat k) = str_nat k"
    using lower_digits [OF str_nat_digits, of k] by (simp add: lower_def)
  moreover have "lower_char (CHR '' '') = CHR '' ''" by (simp add: lower_char_def)
  ultimately show ?thesis by (simp add: lower_def)
qed

text \<open>A name that is a numbered form of the base up to case matches and has that number.\<close>

lemma numbered_name:
  assumes eq: "lower n = lower (b @ '' '' @ str_nat k)"
  shows "tail_after b n = Some (CHR '' '' # str_nat k)"
proof -
  have low: "lower n = lower b @ CHR '' '' # str_nat k"
    using eq by (simp only: lower_numbered)
  have len: "length b \<le> length n"
    using lower_eq_length [OF eq] by simp
  have pre: "lower (take (length b) n) = lower b"
    by (simp add: lower_take low lower_length)
  have suf: "lower (drop (length b) n) = CHR '' '' # str_nat k"
    by (simp add: lower_drop low lower_length)
  then obtain c t where ct: "drop (length b) n = c # t" "lower_char c = CHR '' ''" "lower t = str_nat k"
    by (cases "drop (length b) n") (auto simp: lower_def)
  have "c = CHR '' ''" using ct(2) lower_char_blank [of c] by (simp add: lower_char_def)
  moreover have "t = str_nat k" using lower_eq_digits [OF str_nat_digits ct(3)] .
  ultimately show ?thesis using len pre ct(1) by (simp add: tail_after_def)
qed

lemma numbered_name_matches:
  "lower n = lower (b @ '' '' @ str_nat k) \<Longrightarrow> name_matches b n"
  by (simp add: name_matches_def numbered_name number_tail_str_nat)

lemma effective_base_clean: "clean_base (effective_base base_name)"
proof (cases "strip base_name = []")
  case True
  then show ?thesis by (simp add: effective_base_def clean_base_def is_space_def)
next
  case False
  then show ?thesis using strip_ends [OF False] by (simp add: effective_base_def clean_base_def)
qed

lemma numbered_name_strip:
  assumes "clean_base b" and eq: "lower n = lower (b @ '' '' @ str_nat k)"
  shows "strip n = n"
proof (rule strip_id)
  have low: "lower n = lower b @ CHR '' '' # str_nat k" using eq by (simp only: lower_numbered)
  have bne: "b \<noteq> []" using assms(1) by (simp add: clean_base_def)
  then show nne: "n \<noteq> []" using lower_eq_length [OF eq] by auto
  have "hd (lower n) = hd (lower b)" using low bne by (simp add: lower_def)
  then have "lower_char (hd n) = lower_char (hd b)" using nne bne by (simp add: lower_def hd_map)
  then have "is_space (hd n) = is_space (hd b)" using is_space_lower_char by metis
  then show "\<not> is_space (hd n)" using assms(1) by (simp add: clean_base_def)
  have "last (lower n) = last (str_nat k)"
    by (simp add: low str_nat_nonempty)
  then have "lower_char (last n) = last (str_nat k)" using nne by (simp add: lower_def last_map)
  moreover have "is_digit (last (str_nat k))"
  proof -
    have "last (str_nat k) \<in> set (str_nat k)" by (simp add: str_nat_nonempty)
    then show ?thesis using str_nat_digits by blast
  qed
  ultimately have "is_digit (lower_char (last n))" by simp
  then have "is_space (lower_char (last n)) = False" using is_digit_not_space by blast
  then show "\<not> is_space (last n)" by (simp add: is_space_lower_char)
qed

lemma numbered_name_number:
  assumes "clean_base b" and "lower n = lower (b @ '' '' @ str_nat k)"
  shows "name_number b n = Some k"
  using numbered_name [OF assms(2)] numbered_name_strip [OF assms]
  by (simp add: name_number_def number_tail_str_nat digits_value_str_nat)


lemma rename_first_unmatched_prefix:
  "\<forall>m \<in> set xs. \<not> p m \<Longrightarrow> rename_first p new_name (xs @ ys) = xs @ rename_first p new_name ys"
  by (induction xs) simp_all

lemma alloc_outcome_unmatched_prefix:
  assumes "\<forall>m \<in> set tep. \<not> name_matches b (mat_partname m)"
  shows "alloc_outcome (tep @ xs) b ex = (fst (alloc_outcome xs b ex), tep @ snd (alloc_outcome xs b ex))"
proof -
  let ?P = "\<lambda>m. name_matches b (mat_partname m) \<and> (ex = [] \<or> mat_partcode m \<noteq> ex)"
  let ?Q = "\<lambda>m. lower (mat_partname m) = lower b \<and> (ex = [] \<or> mat_partcode m \<noteq> ex)"
  have f: "filter ?P (tep @ xs) = filter ?P xs" using assms by simp
  have "\<forall>m \<in> set tep. \<not> ?Q m" using assms bare_name_matches by blast
  then have r: "rename_first ?Q new_name (tep @ xs) = tep @ rename_first ?Q new_name xs" for new_name
    by (rule rename_first_unmatched_prefix)
  show ?thesis
    unfolding alloc_outcome_def Let_def f r
    by (simp split: list.splits)
qed

text \<open>
  C4. For every base name the two patterns compile, and they compile to the base read
  character by character as literals (between the anchors and the optional numbered
  tail): no base raises a pattern error, no call of the allocator raises at all, and a
  name matches only if it is the base up to case, with or without a numbered tail. With
  base \<open>A.B\<close> a row named \<open>AXB\<close> is no match and the call returns \<open>A.B\<close>, leaving the
  scope as it is.
\<close>

theorem base_name_is_literal:
  "re_compile (base_pattern base) = Inr (base_rx base)
   \<and> re_compile (number_pattern base) = Inr (number_rx base)
   \<and> iregex (base_pattern base) name = Inr (name_matches base name)
   \<and> (\<exists>result. allocate_material_name tep base_name exclude_partcode = Inr result)
   \<and> iregex (base_pattern ''A.B'') ''AXB'' = Inr False
   \<and> allocate_material_name [\<lparr>mat_partcode = code, mat_partname = ''AXB''\<rparr>] ''A.B'' ''''
       = Inr (''A.B'', [\<lparr>mat_partcode = code, mat_partname = ''AXB''\<rparr>])"
proof -
  have nm: "name_matches ''A.B'' ''AXB'' = False" by code_simp
  have eb: "effective_base ''A.B'' = ''A.B''" by code_simp
  have "alloc_outcome [\<lparr>mat_partcode = code, mat_partname = ''AXB''\<rparr>] ''A.B'' []
          = (''A.B'', [\<lparr>mat_partcode = code, mat_partname = ''AXB''\<rparr>])"
    by (simp add: alloc_outcome_def nm)
  then have ex: "allocate_material_name [\<lparr>mat_partcode = code, mat_partname = ''AXB''\<rparr>] ''A.B'' ''''
       = Inr (''A.B'', [\<lparr>mat_partcode = code, mat_partname = ''AXB''\<rparr>])"
    by (simp add: allocate_eq eb)
  show ?thesis
    using compile_base_pattern [of base] compile_number_pattern [of base]
      iregex_base_pattern [of base name] iregex_base_pattern [of "''A.B''" "''AXB''"]
      allocate_eq [of tep base_name exclude_partcode] nm ex
    by simp
qed

theorem base_name_is_literal_witness:
  "iregex (base_pattern ''A(B'') ''a(b 12'' = Inr True
   \<and> iregex (base_pattern ''A(B'') ''A(B'' = Inr True
   \<and> iregex (base_pattern ''A.B'') ''AXB'' = Inr False
   \<and> allocate_material_name [\<lparr>mat_partcode = ''M1'', mat_partname = ''AXB''\<rparr>] ''A.B'' ''''
       = Inr (''A.B'', [\<lparr>mat_partcode = ''M1'', mat_partname = ''AXB''\<rparr>])"
proof -
  have v1: "name_matches ''A(B'' ''a(b 12'' = True" by code_simp
  have v2: "name_matches ''A(B'' ''A(B'' = True" by code_simp
  from base_name_is_literal [of "''A(B''" "''a(b 12''" "[]" "''''" "''''" "''M1''"]
    base_name_is_literal [of "''A(B''" "''A(B''" "[]" "''''" "''''" "''M1''"] v1 v2
  show ?thesis by simp
qed

text \<open>
  C2. From a scope in which no name matches the pattern of \<open>TAPE\<close>, three calls with base
  \<open>TAPE\<close> and no exclusion, each followed by the storing of the returned name on a new row,
  return \<open>TAPE\<close>, \<open>TAPE 2\<close> and \<open>TAPE 3\<close>; the second call renames the row named \<open>TAPE\<close> to
  \<open>TAPE 1\<close> before it returns, and nothing else changes.
\<close>

theorem tape_numbering_sequence:
  assumes "\<forall>m \<in> set tep. iregex (base_pattern ''TAPE'') (mat_partname m) = Inr False"
  shows "allocated_names tep [(''TAPE'', '''', c1), (''TAPE'', '''', c2), (''TAPE'', '''', c3)]
           = Inr [''TAPE'', ''TAPE 2'', ''TAPE 3'']
       \<and> allocation_trace tep [(''TAPE'', '''', c1), (''TAPE'', '''', c2), (''TAPE'', '''', c3)]
           = Inr [tep,
                  tep,
                  tep @ [\<lparr>mat_partcode = c1, mat_partname = ''TAPE''\<rparr>],
                  tep @ [\<lparr>mat_partcode = c1, mat_partname = ''TAPE 1''\<rparr>],
                  tep @ [\<lparr>mat_partcode = c1, mat_partname = ''TAPE 1''\<rparr>,
                         \<lparr>mat_partcode = c2, mat_partname = ''TAPE 2''\<rparr>],
                  tep @ [\<lparr>mat_partcode = c1, mat_partname = ''TAPE 1''\<rparr>,
                         \<lparr>mat_partcode = c2, mat_partname = ''TAPE 2''\<rparr>],
                  tep @ [\<lparr>mat_partcode = c1, mat_partname = ''TAPE 1''\<rparr>,
                         \<lparr>mat_partcode = c2, mat_partname = ''TAPE 2''\<rparr>,
                         \<lparr>mat_partcode = c3, mat_partname = ''TAPE 3''\<rparr>]]"
proof -
  have un: "\<forall>m \<in> set tep. \<not> name_matches ''TAPE'' (mat_partname m)"
    using assms by (simp add: iregex_base_pattern)
  have eb: "effective_base ''TAPE'' = ''TAPE''" by code_simp
  have f1: "name_matches ''TAPE'' ''TAPE'' = True" by code_simp
  have f2: "name_number ''TAPE'' ''TAPE'' = None" by code_simp
  have f3: "name_matches ''TAPE'' ''TAPE 1'' = True" by code_simp
  have f4: "name_matches ''TAPE'' ''TAPE 2'' = True" by code_simp
  have f5: "name_number ''TAPE'' ''TAPE 1'' = Some 1" by code_simp
  have f6: "name_number ''TAPE'' ''TAPE 2'' = Some 2" by code_simp
  have f7: "str_nat (Suc (Suc (Suc 0))) = ''3''" by code_simp
  have o1: "alloc_outcome [] ''TAPE'' [] = (''TAPE'', [])"
    by (simp add: alloc_outcome_def)
  have o2: "alloc_outcome [\<lparr>mat_partcode = c1, mat_partname = ''TAPE''\<rparr>] ''TAPE'' []
              = (''TAPE 2'', [\<lparr>mat_partcode = c1, mat_partname = ''TAPE 1''\<rparr>])"
    by (simp add: alloc_outcome_def f1 f2 List.map_filter_simps)
  have o3: "alloc_outcome [\<lparr>mat_partcode = c1, mat_partname = ''TAPE 1''\<rparr>,
                           \<lparr>mat_partcode = c2, mat_partname = ''TAPE 2''\<rparr>] ''TAPE'' []
              = (''TAPE 3'', [\<lparr>mat_partcode = c1, mat_partname = ''TAPE 1''\<rparr>,
                              \<lparr>mat_partcode = c2, mat_partname = ''TAPE 2''\<rparr>])"
    by (simp add: alloc_outcome_def f3 f4 f5 f6 f7 List.map_filter_simps)
  have a1: "allocate_material_name tep ''TAPE'' '''' = Inr (''TAPE'', tep)"
    using alloc_outcome_unmatched_prefix [OF un, of "[]" "[]"]
    by (simp add: allocate_eq eb o1)
  have a2: "allocate_material_name (tep @ [\<lparr>mat_partcode = c1, mat_partname = ''TAPE''\<rparr>]) ''TAPE'' ''''
              = Inr (''TAPE 2'', tep @ [\<lparr>mat_partcode = c1, mat_partname = ''TAPE 1''\<rparr>])"
    by (simp add: allocate_eq eb alloc_outcome_unmatched_prefix [OF un] o2)
  have a3: "allocate_material_name
              (tep @ [\<lparr>mat_partcode = c1, mat_partname = ''TAPE 1''\<rparr>,
                      \<lparr>mat_partcode = c2, mat_partname = ''TAPE 2''\<rparr>]) ''TAPE'' ''''
              = Inr (''TAPE 3'', tep @ [\<lparr>mat_partcode = c1, mat_partname = ''TAPE 1''\<rparr>,
                                        \<lparr>mat_partcode = c2, mat_partname = ''TAPE 2''\<rparr>])"
    by (simp add: allocate_eq eb alloc_outcome_unmatched_prefix [OF un] o3)
  show ?thesis
    by (simp add: a1 a2 a3 store_new_def)
qed

theorem tape_numbering_sequence_witness:
  "list_all (\<lambda>m. iregex (base_pattern ''TAPE'') (mat_partname m) = Inr False)
     [\<lparr>mat_partcode = ''G1'', mat_partname = ''GLUE''\<rparr>]
   \<and> allocated_names [\<lparr>mat_partcode = ''G1'', mat_partname = ''GLUE''\<rparr>]
        [(''TAPE'', '''', ''T1''), (''TAPE'', '''', ''T2''), (''TAPE'', '''', ''T3'')]
       = Inr [''TAPE'', ''TAPE 2'', ''TAPE 3'']
   \<and> allocated_names [] [(''TAPE'', '''', ''T1''), (''TAPE'', '''', ''T2''), (''TAPE'', '''', ''T3'')]
       = Inr [''TAPE'', ''TAPE 2'', ''TAPE 3'']"
proof -
  have h: "\<forall>m \<in> set [\<lparr>mat_partcode = ''G1'', mat_partname = ''GLUE''\<rparr>].
             iregex (base_pattern ''TAPE'') (mat_partname m) = Inr False"
    by code_simp
  have h0: "\<forall>m \<in> set ([] :: material list). iregex (base_pattern ''TAPE'') (mat_partname m) = Inr False"
    by simp
  from tape_numbering_sequence [OF h, of "''T1''" "''T2''" "''T3''"]
    tape_numbering_sequence [OF h0, of "''T1''" "''T2''" "''T3''"] h
  show ?thesis by (simp add: list_all_iff)
qed

text \<open>
  C3, the claim as stated fails: after two calls with base \<open>TAPE\<close> the first row is named
  \<open>TAPE 1\<close>; a third call whose base is \<open>TAPE 1\<close> renames that row again, to \<open>TAPE 1 1\<close>.
\<close>

theorem renamed_twice_counterexample:
  "allocation_trace [] [(''TAPE'', '''', ''M1''), (''TAPE'', '''', ''M2''), (''TAPE 1'', '''', ''M3'')]
     = Inr [[],
            [],
            [\<lparr>mat_partcode = ''M1'', mat_partname = ''TAPE''\<rparr>],
            [\<lparr>mat_partcode = ''M1'', mat_partname = ''TAPE 1''\<rparr>],
            [\<lparr>mat_partcode = ''M1'', mat_partname = ''TAPE 1''\<rparr>,
             \<lparr>mat_partcode = ''M2'', mat_partname = ''TAPE 2''\<rparr>],
            [\<lparr>mat_partcode = ''M1'', mat_partname = ''TAPE 1 1''\<rparr>,
             \<lparr>mat_partcode = ''M2'', mat_partname = ''TAPE 2''\<rparr>],
            [\<lparr>mat_partcode = ''M1'', mat_partname = ''TAPE 1 1''\<rparr>,
             \<lparr>mat_partcode = ''M2'', mat_partname = ''TAPE 2''\<rparr>,
             \<lparr>mat_partcode = ''M3'', mat_partname = ''TAPE 1 2''\<rparr>]]
   \<and> renames_at 0
       [[],
        [],
        [\<lparr>mat_partcode = ''M1'', mat_partname = ''TAPE''\<rparr>],
        [\<lparr>mat_partcode = ''M1'', mat_partname = ''TAPE 1''\<rparr>],
        [\<lparr>mat_partcode = ''M1'', mat_partname = ''TAPE 1''\<rparr>,
         \<lparr>mat_partcode = ''M2'', mat_partname = ''TAPE 2''\<rparr>],
        [\<lparr>mat_partcode = ''M1'', mat_partname = ''TAPE 1 1''\<rparr>,
         \<lparr>mat_partcode = ''M2'', mat_partname = ''TAPE 2''\<rparr>],
        [\<lparr>mat_partcode = ''M1'', mat_partname = ''TAPE 1 1''\<rparr>,
         \<lparr>mat_partcode = ''M2'', mat_partname = ''TAPE 2''\<rparr>,
         \<lparr>mat_partcode = ''M3'', mat_partname = ''TAPE 1 2''\<rparr>]] = 2"
  by code_simp


section \<open>Uniqueness of the names of a scope\<close>

lemma fold_max_init: "k \<le> fold max ks (k::nat)"
proof (induction ks arbitrary: k)
  case Nil
  then show ?case by simp
next
  case (Cons a ks)
  have "k \<le> max a k" by simp
  also have "max a k \<le> fold max ks (max a k)" by (rule Cons.IH)
  finally show ?case by simp
qed

lemma fold_max_mem: "x \<in> set ks \<Longrightarrow> x \<le> fold max ks (k::nat)"
proof (induction ks arbitrary: k)
  case Nil
  then show ?case by simp
next
  case (Cons a ks)
  show ?case
  proof (cases "x = a")
    case True
    have "a \<le> max a k" by simp
    also have "max a k \<le> fold max ks (max a k)" by (rule fold_max_init)
    finally show ?thesis using True by simp
  next
    case False
    with Cons.prems have "x \<in> set ks" by simp
    then have "x \<le> fold max ks (max a k)" by (rule Cons.IH)
    then show ?thesis by simp
  qed
qed

lemma fold_max_ge: "x \<in> set (k # ks) \<Longrightarrow> x \<le> fold max ks (k::nat)"
  using fold_max_init [of k ks] fold_max_mem [of x ks k] by auto

lemma map_filter_member:
  "x \<in> set xs \<Longrightarrow> f x = Some y \<Longrightarrow> y \<in> set (List.map_filter f xs)"
  by (induction xs) (auto simp: List.map_filter_simps split: option.splits)

lemma str_nat_1_2: "lower (b @ '' '' @ str_nat 2) \<noteq> lower (b @ '' '' @ str_nat 1)"
  using candidate_inj [of b 2 1] by auto

lemma rename_first_names:
  "set (map (\<lambda>m. lower (mat_partname m)) (rename_first p new_name xs))
     \<subseteq> insert (lower new_name) (set (map (\<lambda>m. lower (mat_partname m)) xs))"
  by (induction xs) auto

lemma rename_first_distinct:
  assumes "distinct (map (\<lambda>m. lower (mat_partname m)) xs)"
      and "lower new_name \<notin> set (map (\<lambda>m. lower (mat_partname m)) xs)"
  shows "distinct (map (\<lambda>m. lower (mat_partname m)) (rename_first p new_name xs))"
  using assms
proof (induction xs)
  case Nil
  then show ?case by simp
next
  case (Cons m ms)
  show ?case
  proof (cases "p m")
    case True
    with Cons.prems show ?thesis by simp
  next
    case False
    have d: "distinct (map (\<lambda>m. lower (mat_partname m)) (rename_first p new_name ms))"
      using Cons by simp
    have "lower (mat_partname m) \<notin> insert (lower new_name) (set (map (\<lambda>m. lower (mat_partname m)) ms))"
      using Cons.prems by auto
    then have "lower (mat_partname m) \<notin> set (map (\<lambda>m. lower (mat_partname m)) (rename_first p new_name ms))"
      using rename_first_names [of p new_name ms] by blast
    with d False show ?thesis by simp
  qed
qed

text \<open>The step: one call without exclusion, from a scope whose names are distinct up to case.\<close>

lemma alloc_outcome_distinct:
  assumes dist: "ci_distinct tep" and clean: "clean_base b"
  shows "ci_distinct (snd (alloc_outcome tep b []))
       \<and> lower (fst (alloc_outcome tep b []))
           \<notin> set (map (\<lambda>m. lower (mat_partname m)) (snd (alloc_outcome tep b [])))"
proof -
  let ?low = "\<lambda>m. lower (mat_partname m)"
  let ?qs = "filter (\<lambda>m. name_matches b (mat_partname m) \<and> ([] = ([]::string) \<or> mat_partcode m \<noteq> [])) tep"
  let ?numbers = "List.map_filter (name_number b) (map mat_partname ?qs)"
  have in_qs: "m \<in> set ?qs" if "m \<in> set tep" "name_matches b (mat_partname m)" for m
    using that by simp
  have numbered: "k \<in> set ?numbers"
    if "m \<in> set tep" "lower (mat_partname m) = lower (b @ '' '' @ str_nat k)" for m k
  proof -
    have "m \<in> set ?qs" using that numbered_name_matches in_qs by blast
    moreover have "name_number b (mat_partname m) = Some k"
      using clean that(2) by (rule numbered_name_number)
    ultimately have "mat_partname m \<in> set (map mat_partname ?qs)"
        and "name_number b (mat_partname m) = Some k"
      by simp_all
    then show ?thesis by (rule map_filter_member)
  qed
  show ?thesis
  proof (cases "?qs = []")
    case True
    have "lower b \<notin> set (map ?low tep)"
    proof
      assume "lower b \<in> set (map ?low tep)"
      then obtain m where "m \<in> set tep" "lower (mat_partname m) = lower b" by auto
      then have "m \<in> set ?qs" using bare_name_matches in_qs by blast
      with True show False by simp
    qed
    with True dist show ?thesis by (simp add: alloc_outcome_def ci_distinct_def)
  next
    case False
    show ?thesis
    proof (cases ?numbers)
      case Nil
      have free: "lower (b @ '' '' @ str_nat k) \<notin> set (map ?low tep)" for k
      proof
        assume "lower (b @ '' '' @ str_nat k) \<in> set (map ?low tep)"
        then obtain m where "m \<in> set tep" "lower (mat_partname m) = lower (b @ '' '' @ str_nat k)"
          by auto
        then have "k \<in> set ?numbers" by (rule numbered)
        with Nil show False by simp
      qed
      have one: "b @ '' 1'' = b @ '' '' @ str_nat 1" and two: "b @ '' 2'' = b @ '' '' @ str_nat 2"
        by (simp_all add: str_nat.simps digit_char_def)
      let ?tep' = "rename_first (\<lambda>m. lower (mat_partname m) = lower b
                                 \<and> ([] = ([]::string) \<or> mat_partcode m \<noteq> [])) (b @ '' 1'') tep"
      have d: "distinct (map ?low ?tep')"
        using dist free [of 1] unfolding ci_distinct_def one by (intro rename_first_distinct)
      have "set (map ?low ?tep') \<subseteq> insert (lower (b @ '' 1'')) (set (map ?low tep))"
        by (rule rename_first_names)
      moreover have "lower (b @ '' 2'') \<noteq> lower (b @ '' 1'')"
        unfolding one two by (rule str_nat_1_2)
      moreover have "lower (b @ '' 2'') \<notin> set (map ?low tep)"
        unfolding two by (rule free)
      ultimately have n: "lower (b @ '' 2'') \<notin> set (map ?low ?tep')" by blast
      have "alloc_outcome tep b [] = (b @ '' 2'', ?tep')"
        using False Nil by (simp add: alloc_outcome_def)
      with d n show ?thesis by (simp add: ci_distinct_def)
    next
      case (Cons k ks)
      let ?n = "fold max ks k + 1"
      have "lower (b @ '' '' @ str_nat ?n) \<notin> set (map ?low tep)"
      proof
        assume "lower (b @ '' '' @ str_nat ?n) \<in> set (map ?low tep)"
        then obtain m where "m \<in> set tep" "lower (mat_partname m) = lower (b @ '' '' @ str_nat ?n)"
          by auto
        then have "?n \<in> set ?numbers" by (rule numbered)
        then have "?n \<le> fold max ks k" unfolding Cons by (rule fold_max_ge)
        then show False by simp
      qed
      moreover have "alloc_outcome tep b [] = (b @ '' '' @ str_nat ?n, tep)"
        using False Cons by (simp add: alloc_outcome_def)
      ultimately show ?thesis using dist by (simp add: ci_distinct_def)
    qed
  qed
qed

lemma store_new_distinct:
  "ci_distinct tep \<Longrightarrow> lower name \<notin> set (map (\<lambda>m. lower (mat_partname m)) tep)
     \<Longrightarrow> ci_distinct (store_new tep code name)"
  by (simp add: ci_distinct_def store_new_def)

lemma trace_distinct:
  assumes "ci_distinct tep" and "\<forall>c \<in> set calls. fst (snd c) = []"
  shows "\<exists>tr. allocation_trace tep calls = Inr tr \<and> (\<forall>s \<in> set tr. ci_distinct s)"
  using assms
proof (induction calls arbitrary: tep)
  case Nil
  then show ?case by simp
next
  case (Cons c calls)
  obtain bn ex code where c: "c = (bn, ex, code)" by (cases c) auto
  with Cons.prems have ex: "ex = []" by simp
  let ?out = "alloc_outcome tep (effective_base bn) []"
  have step: "ci_distinct (snd ?out)"
       "lower (fst ?out) \<notin> set (map (\<lambda>m. lower (mat_partname m)) (snd ?out))"
    using alloc_outcome_distinct [OF Cons.prems(1) effective_base_clean] by blast+
  have "ci_distinct (store_new (snd ?out) code (fst ?out))"
    using step by (rule store_new_distinct)
  moreover have "\<forall>c \<in> set calls. fst (snd c) = []" using Cons.prems(2) by simp
  ultimately obtain tr where tr: "allocation_trace (store_new (snd ?out) code (fst ?out)) calls = Inr tr"
      "\<forall>s \<in> set tr. ci_distinct s"
    using Cons.IH by blast
  have "allocation_trace tep (c # calls) = Inr (tep # snd ?out # tr)"
    by (simp add: c ex allocate_eq tr(1) split_beta)
  with tr(2) step(1) Cons.prems(1) show ?case by simp
qed

text \<open>
  C1. From a scope whose names are distinct up to case (the empty scope, for one), every
  sequence of calls without exclusion, each followed by the storing of the returned name on
  a new row, runs without error, and in every scope passed through (before a call, after
  its rename, after the new row is stored) no two rows have names that are equal up to
  case. In particular the name a call returns differs up to case from every name in the
  scope that the call leaves.
\<close>

theorem allocated_names_stay_distinct:
  assumes "ci_distinct tep" and "\<forall>c \<in> set calls. fst (snd c) = []"
  shows "(\<exists>tr. allocation_trace tep calls = Inr tr \<and> (\<forall>s \<in> set tr. ci_distinct s))
       \<and> (\<exists>name tep'. allocate_material_name tep base_name '''' = Inr (name, tep')
             \<and> ci_distinct tep'
             \<and> lower name \<notin> set (map (\<lambda>m. lower (mat_partname m)) tep'))"
proof -
  let ?out = "alloc_outcome tep (effective_base base_name) []"
  have "allocate_material_name tep base_name '''' = Inr (fst ?out, snd ?out)"
    by (simp add: allocate_eq)
  then show ?thesis
    using trace_distinct [OF assms] alloc_outcome_distinct [OF assms(1) effective_base_clean, of base_name]
    by blast
qed

theorem allocated_names_stay_distinct_witness:
  "(\<exists>tr. allocation_trace []
            [(''TAPE'', '''', ''M1''), (''tape'', '''', ''M2''), (''Tape 1'', '''', ''M3''),
             (''TAPE'', '''', ''M4'')] = Inr tr
        \<and> list_all ci_distinct tr)
   \<and> allocated_names []
        [(''TAPE'', '''', ''M1''), (''tape'', '''', ''M2''), (''Tape 1'', '''', ''M3''),
         (''TAPE'', '''', ''M4'')]
       = Inr [''TAPE'', ''tape 2'', ''Tape 1 2'', ''TAPE 3'']"
proof -
  have h1: "ci_distinct []" by (simp add: ci_distinct_def)
  have h2: "\<forall>c \<in> set [(''TAPE'', '''', ''M1''), (''tape'', '''', ''M2''), (''Tape 1'', '''', ''M3''),
                        (''TAPE'', '''', ''M4'')]. fst (snd c) = []"
    by simp
  have v: "allocated_names []
        [(''TAPE'', '''', ''M1''), (''tape'', '''', ''M2''), (''Tape 1'', '''', ''M3''),
         (''TAPE'', '''', ''M4'')]
       = Inr [''TAPE'', ''tape 2'', ''Tape 1 2'', ''TAPE 3'']"
    by code_simp
  from allocated_names_stay_distinct [OF h1 h2, of "''TAPE''"] v
  show ?thesis by (simp only: list_all_iff)
qed


end
